theory Spec2Isabelle
  imports Complex_Main "HOL-Library.Word" "HOL-Library.Sublist"
begin

section \<open>Faults\<close>

text \<open>
  What ends a call of the C++ source without a result is a value of the model: an integer
  division or remainder by zero, the \<open>std::bad_alloc\<close> thrown by the arena, and a read
  from a file that runs past the end of the vector it fills.
\<close>

datatype fault = DivisionByZero | BadAlloc | BufferOverflow

section \<open>ring\_buffer.h: LockFreeRingBuffer\<close>

text \<open>
  The class holds \<open>std::array<T, Size> buffer\<close> and the two atomic positions. \<open>Size\<close> is
  the template parameter and is passed to every operation. The positions stay below
  \<open>Size\<close>, so \<open>currentWrite + 1\<close> never wraps in \<open>size_t\<close> and they are modelled as \<open>nat\<close>.
  \<open>% Size\<close> with \<open>Size = 0\<close> is a division by zero. \<open>buffer[i]\<close> is defined for
  \<open>i < Size\<close> only; in every state that the operations reach from the constructor both
  positions are below \<open>Size\<close> (\<open>rb_inv\<close> below), and the theorems speak of those states.
  \<open>push\<close> and \<open>pop\<close> are whole calls; further down each call is cut into its loads and
  stores and the two threads are interleaved.
\<close>

record 'a LockFreeRingBuffer =
  buffer :: "'a list"
  writePos :: nat
  readPos :: nat

definition push :: "nat \<Rightarrow> 'a \<Rightarrow> 'a LockFreeRingBuffer \<Rightarrow> fault + (bool \<times> 'a LockFreeRingBuffer)" where
  "push Size item rb =
     (let currentWrite = writePos rb in
      if Size = 0 then Inl DivisionByZero
      else let nextWrite = (currentWrite + 1) mod Size in
        if nextWrite = readPos rb then Inr (False, rb)
        else Inr (True, rb\<lparr>buffer := (buffer rb)[currentWrite := item], writePos := nextWrite\<rparr>))"

text \<open>
  \<open>pop\<close> has the out-parameter \<open>item\<close>: the model takes its old value and returns the new
  one, which is the old one when the call returns false.
\<close>

definition pop :: "nat \<Rightarrow> 'a \<Rightarrow> 'a LockFreeRingBuffer \<Rightarrow> fault + (bool \<times> 'a \<times> 'a LockFreeRingBuffer)" where
  "pop Size item rb =
     (let currentRead = readPos rb in
      if currentRead = writePos rb then Inr (False, item, rb)
      else if Size = 0 then Inl DivisionByZero
      else Inr (True, buffer rb ! currentRead, rb\<lparr>readPos := (currentRead + 1) mod Size\<rparr>))"

definition isEmpty :: "'a LockFreeRingBuffer \<Rightarrow> bool" where
  "isEmpty rb = (readPos rb = writePos rb)"

text \<open>
  The state invariant of the class, the number of stored elements and the stored elements
  from the oldest to the newest (the slots from \<open>readPos\<close> up to \<open>writePos\<close>, cyclically).
  They are used by the proofs only.
\<close>

definition rb_inv :: "nat \<Rightarrow> 'a LockFreeRingBuffer \<Rightarrow> bool" where
  "rb_inv Size rb = (length (buffer rb) = Size \<and> writePos rb < Size \<and> readPos rb < Size)"

definition rb_count :: "nat \<Rightarrow> 'a LockFreeRingBuffer \<Rightarrow> nat" where
  "rb_count Size rb = (writePos rb + Size - readPos rb) mod Size"

definition rb_contents :: "nat \<Rightarrow> 'a LockFreeRingBuffer \<Rightarrow> 'a list" where
  "rb_contents Size rb = map (\<lambda>k. buffer rb ! ((readPos rb + k) mod Size)) [0..<rb_count Size rb]"

subsection \<open>Sequential use: whole calls, one after the other\<close>

text \<open>
  A client that calls \<open>push\<close> and \<open>pop\<close> in any order. \<open>run\<close> records the items whose
  \<open>push\<close> returned true and the items delivered by the \<open>pop\<close>s that returned true, and
  threads the consumer's variable \<open>item\<close>. \<open>empty_rb\<close> is the state after construction:
  both positions 0, and the slots of the array hold whatever \<open>T\<close>'s default
  initialisation leaves there.
\<close>

datatype 'a rb_op = Push 'a | Pop

definition empty_rb :: "'a list \<Rightarrow> 'a LockFreeRingBuffer" where
  "empty_rb slots = \<lparr>buffer = slots, writePos = 0, readPos = 0\<rparr>"

fun run :: "nat \<Rightarrow> 'a rb_op list \<Rightarrow> 'a list \<times> 'a list \<times> 'a \<times> 'a LockFreeRingBuffer
    \<Rightarrow> fault + ('a list \<times> 'a list \<times> 'a \<times> 'a LockFreeRingBuffer)" where
  "run Size [] s = Inr s"
| "run Size (Push x # ops) (enq, deq, item, rb) =
     (case push Size x rb of
        Inl f \<Rightarrow> Inl f
      | Inr (ok, rb') \<Rightarrow> run Size ops (if ok then enq @ [x] else enq, deq, item, rb'))"
| "run Size (Pop # ops) (enq, deq, item, rb) =
     (case pop Size item rb of
        Inl f \<Rightarrow> Inl f
      | Inr (ok, item', rb') \<Rightarrow> run Size ops (enq, if ok then deq @ [item'] else deq, item', rb'))"

subsection \<open>One producer and one consumer, interleaved at each load and store\<close>

text \<open>
  Each call is cut at its accesses to the shared state. \<open>push\<close>: load \<open>writePos\<close> and
  compute \<open>nextWrite\<close> (lines 15-16); load \<open>readPos\<close> and compare (18-20); store the item
  into the slot (22); store \<open>writePos\<close> and return true (23-24). \<open>pop\<close>: load \<open>readPos\<close>
  (28); load \<open>writePos\<close> and compare (30-32); copy the slot out (34); store \<open>readPos\<close> and
  return true (35-36). A schedule says which thread takes the next step; an idle producer
  starts \<open>push\<close> with the item the schedule gives it, an idle consumer starts \<open>pop\<close>.
  \<open>enqueued\<close> and \<open>dequeued\<close> record the items of the calls that returned true, in
  the order of their return. The interleaving is sequentially consistent: the weaker
  orders of \<open>std::memory_order\<close> are not modelled.
\<close>

datatype producer_pc = P_idle | P_loaded | P_checked | P_stored

datatype consumer_pc = C_idle | C_loaded | C_checked | C_copied

record 'a spsc =
  queue :: "'a LockFreeRingBuffer"
  p_pc :: producer_pc
  p_item :: 'a
  currentWrite :: nat
  nextWrite :: nat
  c_pc :: consumer_pc
  c_item :: 'a
  currentRead :: nat
  enqueued :: "'a list"
  dequeued :: "'a list"

datatype 'a thread_step = Producer 'a | Consumer

definition producer_step :: "nat \<Rightarrow> 'a \<Rightarrow> 'a spsc \<Rightarrow> fault + 'a spsc" where
  "producer_step Size x s =
     (case p_pc s of
        P_idle \<Rightarrow>
          if Size = 0 then Inl DivisionByZero
          else Inr (s\<lparr>p_pc := P_loaded, p_item := x, currentWrite := writePos (queue s),
                      nextWrite := (writePos (queue s) + 1) mod Size\<rparr>)
      | P_loaded \<Rightarrow>
          if nextWrite s = readPos (queue s) then Inr (s\<lparr>p_pc := P_idle\<rparr>)
          else Inr (s\<lparr>p_pc := P_checked\<rparr>)
      | P_checked \<Rightarrow>
          Inr (s\<lparr>queue := (queue s)\<lparr>buffer := (buffer (queue s))[currentWrite s := p_item s]\<rparr>,
                 p_pc := P_stored\<rparr>)
      | P_stored \<Rightarrow>
          Inr (s\<lparr>queue := (queue s)\<lparr>writePos := nextWrite s\<rparr>, p_pc := P_idle,
                 enqueued := enqueued s @ [p_item s]\<rparr>))"

definition consumer_step :: "nat \<Rightarrow> 'a spsc \<Rightarrow> fault + 'a spsc" where
  "consumer_step Size s =
     (case c_pc s of
        C_idle \<Rightarrow> Inr (s\<lparr>c_pc := C_loaded, currentRead := readPos (queue s)\<rparr>)
      | C_loaded \<Rightarrow>
          if currentRead s = writePos (queue s) then Inr (s\<lparr>c_pc := C_idle\<rparr>)
          else Inr (s\<lparr>c_pc := C_checked\<rparr>)
      | C_checked \<Rightarrow> Inr (s\<lparr>c_item := buffer (queue s) ! currentRead s, c_pc := C_copied\<rparr>)
      | C_copied \<Rightarrow>
          if Size = 0 then Inl DivisionByZero
          else Inr (s\<lparr>queue := (queue s)\<lparr>readPos := (currentRead s + 1) mod Size\<rparr>, c_pc := C_idle,
                      dequeued := dequeued s @ [c_item s]\<rparr>))"

fun interleave :: "nat \<Rightarrow> 'a thread_step list \<Rightarrow> 'a spsc \<Rightarrow> fault + 'a spsc" where
  "interleave Size [] s = Inr s"
| "interleave Size (Producer x # sched) s =
     (case producer_step Size x s of Inl f \<Rightarrow> Inl f | Inr s' \<Rightarrow> interleave Size sched s')"
| "interleave Size (Consumer # sched) s =
     (case consumer_step Size s of Inl f \<Rightarrow> Inl f | Inr s' \<Rightarrow> interleave Size sched s')"

definition spsc_init :: "'a list \<Rightarrow> 'a \<Rightarrow> 'a \<Rightarrow> 'a spsc" where
  "spsc_init slots x0 v0 =
     \<lparr>queue = empty_rb slots, p_pc = P_idle, p_item = x0, currentWrite = 0, nextWrite = 0,
      c_pc = C_idle, c_item = v0, currentRead = 0, enqueued = [], dequeued = []\<rparr>"

definition spsc_inv :: "nat \<Rightarrow> 'a spsc \<Rightarrow> bool" where
  "spsc_inv N s =
     (rb_inv N (queue s) \<and>
      (p_pc s \<noteq> P_idle \<longrightarrow>
         currentWrite s = writePos (queue s) \<and> nextWrite s = Suc (writePos (queue s)) mod N) \<and>
      (p_pc s = P_checked \<or> p_pc s = P_stored \<longrightarrow> nextWrite s \<noteq> readPos (queue s)) \<and>
      (p_pc s = P_stored \<longrightarrow> buffer (queue s) ! writePos (queue s) = p_item s) \<and>
      (c_pc s \<noteq> C_idle \<longrightarrow> currentRead s = readPos (queue s)) \<and>
      (c_pc s = C_checked \<or> c_pc s = C_copied \<longrightarrow> readPos (queue s) \<noteq> writePos (queue s)) \<and>
      (c_pc s = C_copied \<longrightarrow> c_item s = buffer (queue s) ! readPos (queue s)) \<and>
      enqueued s = dequeued s @ rb_contents N (queue s))"

section \<open>audio\_nodes.h: AudioBuffer, GainNode, FadeNode, MixerNode\<close>

text \<open>
  An \<open>AudioBuffer\<close> is a view: a pointer \<open>float* data\<close>, a length and a channel count. It
  owns no storage, two views may point into the same storage, and the nodes write through
  the pointer. The model therefore has an explicit memory of sample cells, addressed in
  units of one \<open>float\<close>, and \<open>data\<close> is the address of the first cell of the view. The
  field \<open>size\<close> of the struct is \<open>size'\<close> here. Indices and addresses are \<open>nat\<close>: the loops
  count up to a length that is itself a \<open>size_t\<close>, so nothing wraps.

  The sample type of \<open>GainNode\<close> and \<open>MixerNode\<close> is left open: the definitions use \<open>*\<close> and
  \<open>+\<close> of an arbitrary type, so what is proved of them does not depend on the laws of the
  arithmetic. \<open>FadeNode\<close> counts, divides and compares in \<open>float\<close>, and what it does depends
  on the rounding: its samples and members are values of \<open>float32\<close>, defined below.
\<close>

type_synonym 'a memory = "nat \<Rightarrow> 'a"

record AudioBuffer =
  data :: nat
  size' :: nat
  channels :: nat

text \<open>
  The AVX intrinsics of \<open><immintrin.h>\<close>, by their documented meaning: a \<open>__m256\<close> is a
  vector of 8 lanes, \<open>_mm256_loadu_ps\<close> and \<open>_mm256_storeu_ps\<close> move 8 consecutive cells,
  \<open>_mm256_mul_ps\<close> and \<open>_mm256_add_ps\<close> apply the scalar operation to each lane. The load
  completes before the store begins.
\<close>

definition mm256_set1_ps :: "'a \<Rightarrow> 'a list" where
  "mm256_set1_ps a = replicate 8 a"

definition mm256_loadu_ps :: "'a memory \<Rightarrow> nat \<Rightarrow> 'a list" where
  "mm256_loadu_ps mem p = map (\<lambda>k. mem (p + k)) [0..<8]"

definition mm256_mul_ps :: "'a::times list \<Rightarrow> 'a list \<Rightarrow> 'a list" where
  "mm256_mul_ps a b = map2 (*) a b"

definition mm256_add_ps :: "'a::plus list \<Rightarrow> 'a list \<Rightarrow> 'a list" where
  "mm256_add_ps a b = map2 (+) a b"

definition mm256_storeu_ps :: "'a memory \<Rightarrow> nat \<Rightarrow> 'a list \<Rightarrow> 'a memory" where
  "mm256_storeu_ps mem p a = (\<lambda>q. if p \<le> q \<and> q < p + 8 then a ! (q - p) else mem q)"

subsection \<open>GainNode\<close>

text \<open>
  \<open>processImpl\<close> has two bodies, chosen by the macro \<open>__AVX__\<close> when the file is compiled;
  the flag \<open>avx\<close> is that choice. \<open>gain_scalar_loop\<close> is
  \<open>for (i = start; i < buffer.size; ++i) buffer.data[i] *= gain\<close>, and \<open>gain_simd_loop\<close> is
  the loop over \<open>i < simdSize\<close> in steps of 8.
\<close>

function gain_scalar_loop :: "'a::times \<Rightarrow> AudioBuffer \<Rightarrow> nat \<Rightarrow> 'a memory \<Rightarrow> 'a memory" where
  "gain_scalar_loop gain buf i mem =
     (if i < size' buf
      then gain_scalar_loop gain buf (i + 1) (mem(data buf + i := mem (data buf + i) * gain))
      else mem)"
  by pat_completeness auto
termination
  by (relation "measure (\<lambda>(gain, buf, i, mem). size' buf - i)") auto

function gain_simd_loop :: "'a::times list \<Rightarrow> AudioBuffer \<Rightarrow> nat \<Rightarrow> nat \<Rightarrow> 'a memory \<Rightarrow> 'a memory" where
  "gain_simd_loop gainVec buf simdSize i mem =
     (if i < simdSize
      then gain_simd_loop gainVec buf simdSize (i + 8)
             (let samples = mm256_loadu_ps mem (data buf + i);
                  samples = mm256_mul_ps samples gainVec
              in mm256_storeu_ps mem (data buf + i) samples)
      else mem)"
  by pat_completeness auto
termination
  by (relation "measure (\<lambda>(gainVec, buf, simdSize, i, mem). simdSize - i)") auto

definition GainNode_processImpl :: "bool \<Rightarrow> 'a::times \<Rightarrow> AudioBuffer \<Rightarrow> 'a memory \<Rightarrow> 'a memory" where
  "GainNode_processImpl avx gain buf mem =
     (if avx then
        let simdSize = (size' buf div 8) * 8;
            gainVec = mm256_set1_ps gain;
            mem = gain_simd_loop gainVec buf simdSize 0 mem
        in gain_scalar_loop gain buf simdSize mem
      else gain_scalar_loop gain buf 0 mem)"

definition GainNode_process :: "bool \<Rightarrow> 'a::times \<Rightarrow> AudioBuffer \<Rightarrow> 'a memory \<Rightarrow> 'a memory" where
  "GainNode_process avx gain buf mem = GainNode_processImpl avx gain buf mem"

declare gain_scalar_loop.simps [simp del] gain_simd_loop.simps [simp del]

text \<open>
  What the specification says of Gain, in its words: \<open>output[i] = input[i] * factor\<close> for
  every index of the buffer (and no other cell is written).
\<close>

definition gain_spec :: "'a::times \<Rightarrow> AudioBuffer \<Rightarrow> 'a memory \<Rightarrow> 'a memory" where
  "gain_spec gain buf mem =
     (\<lambda>q. if data buf \<le> q \<and> q < data buf + size' buf then mem q * gain else mem q)"

subsection \<open>MixerNode\<close>

text \<open>
  \<open>mix\<close> reads through \<open>in1\<close> and \<open>in2\<close> and writes through \<open>out\<close>;
  \<open>std::min({in1.size, in2.size, out.size})\<close> is the nested \<open>min\<close>.
\<close>

function mix_scalar_loop :: "AudioBuffer \<Rightarrow> AudioBuffer \<Rightarrow> AudioBuffer \<Rightarrow> nat \<Rightarrow> nat \<Rightarrow> 'a::plus memory \<Rightarrow> 'a memory" where
  "mix_scalar_loop in1 in2 out len i mem =
     (if i < len
      then mix_scalar_loop in1 in2 out len (i + 1)
             (mem(data out + i := mem (data in1 + i) + mem (data in2 + i)))
      else mem)"
  by pat_completeness auto
termination
  by (relation "measure (\<lambda>(in1, in2, out, len, i, mem). len - i)") auto

function mix_simd_loop :: "AudioBuffer \<Rightarrow> AudioBuffer \<Rightarrow> AudioBuffer \<Rightarrow> nat \<Rightarrow> nat \<Rightarrow> 'a::plus memory \<Rightarrow> 'a memory" where
  "mix_simd_loop in1 in2 out simdSize i mem =
     (if i < simdSize
      then mix_simd_loop in1 in2 out simdSize (i + 8)
             (let a = mm256_loadu_ps mem (data in1 + i);
                  b = mm256_loadu_ps mem (data in2 + i)
              in mm256_storeu_ps mem (data out + i) (mm256_add_ps a b))
      else mem)"
  by pat_completeness auto
termination
  by (relation "measure (\<lambda>(in1, in2, out, simdSize, i, mem). simdSize - i)") auto

definition MixerNode_mix :: "bool \<Rightarrow> AudioBuffer \<Rightarrow> AudioBuffer \<Rightarrow> AudioBuffer \<Rightarrow> 'a::plus memory \<Rightarrow> 'a memory" where
  "MixerNode_mix avx in1 in2 out mem =
     (let len = min (size' in1) (min (size' in2) (size' out)) in
      if avx then
        let simdSize = (len div 8) * 8;
            mem = mix_simd_loop in1 in2 out simdSize 0 mem
        in mix_scalar_loop in1 in2 out len simdSize mem
      else mix_scalar_loop in1 in2 out len 0 mem)"

declare mix_scalar_loop.simps [simp del] mix_simd_loop.simps [simp del]

text \<open>
  The first \<open>len\<close> cells of the view \<open>out\<close> and of the view \<open>inp\<close> do not overlap.
\<close>

definition views_disjoint :: "AudioBuffer \<Rightarrow> AudioBuffer \<Rightarrow> nat \<Rightarrow> bool" where
  "views_disjoint inp out len = (data out + len \<le> data inp \<or> data inp + len \<le> data out)"

subsection \<open>float: IEEE 754 binary32\<close>

text \<open>
  A \<open>float\<close> is a finite real, an infinity or NaN. \<open>round32\<close> is the rounding of every
  operation: to the nearest value with a significand of 24 bits, ties to the even
  significand, with the spacing \<open>2^-149\<close> of the subnormal range below \<open>2^-126\<close>, and to an
  infinity when the rounded magnitude reaches \<open>2^128\<close>. The operations are those of the
  C++ operators \<open>+\<close>, \<open>-\<close>, \<open>*\<close>, \<open>/\<close> and \<open><\<close> on \<open>float\<close> operands; \<open>std::max(a, b)\<close> is
  \<open>(a < b) ? b : a\<close> and \<open>std::min(a, b)\<close> is \<open>(b < a) ? b : a\<close>. The sign of a zero is not
  modelled: a zero divisor counts as \<open>+0\<close>.
\<close>

datatype float32 = Finite real | PlusInf | MinusInf | NaN


definition ulp_exponent :: "real \<Rightarrow> int" where
  "ulp_exponent x = max \<lfloor>log 2 \<bar>x\<bar>\<rfloor> (- 126) - 23"










subsection \<open>FadeNode\<close>








definition counter_at :: "nat \<Rightarrow> float32" where
  "counter_at p = Finite (real (min p (2 ^ 24)))"

section \<open>memory\_arena.h: MemoryArena\<close>

text \<open>
  The arena owns \<open>std::vector<uint8_t> buffer\<close> and the cursor \<open>offset\<close>. The bytes of the
  buffer play no part in \<open>allocate\<close>; the model keeps the length \<open>buffer.size()\<close>. Both are
  \<open>size_t\<close>, here 64 bits wide (the header is built for x86-64, where \<open><immintrin.h>\<close>
  lives): \<open>+\<close> wraps, \<open>%\<close> and \<open>>\<close> are unsigned, as in C++. \<open>allocate\<close> returns the pointer
  \<open>buffer.data() + offset\<close>, modelled by its distance from \<open>buffer.data()\<close>; \<open>throw
  std::bad_alloc()\<close> is the fault \<open>BadAlloc\<close>, and \<open>% alignment\<close> with \<open>alignment = 0\<close> is a
  division by zero. The parameter \<open>size\<close> is \<open>sz\<close> here.
\<close>

type_synonym size_t = "64 word"

record MemoryArena =
  buffer_size :: size_t
  offset :: size_t

definition MemoryArena_new :: "size_t \<Rightarrow> MemoryArena" where
  "MemoryArena_new sz = \<lparr>buffer_size = sz, offset = 0\<rparr>"

definition allocate :: "size_t \<Rightarrow> size_t \<Rightarrow> MemoryArena \<Rightarrow> fault + (size_t \<times> MemoryArena)" where
  "allocate sz alignment arena =
     (if alignment = 0 then Inl DivisionByZero
      else
        let padding = (alignment - (offset arena mod alignment)) mod alignment in
        if offset arena + padding + sz > buffer_size arena then Inl BadAlloc
        else
          let arena = arena\<lparr>offset := offset arena + padding\<rparr>;
              ptr = offset arena;
              arena = arena\<lparr>offset := offset arena + sz\<rparr>
          in Inr (ptr, arena))"

definition reset :: "MemoryArena \<Rightarrow> MemoryArena" where
  "reset arena = arena\<lparr>offset := 0\<rparr>"

definition used :: "MemoryArena \<Rightarrow> size_t" where
  "used arena = offset arena"

definition capacity :: "MemoryArena \<Rightarrow> size_t" where
  "capacity arena = buffer_size arena"

text \<open>
  The padding of the specification, \<open>(alignment - (offset mod alignment)) mod alignment\<close>,
  over the natural numbers.
\<close>

definition padding_nat :: "nat \<Rightarrow> nat \<Rightarrow> nat" where
  "padding_nat off alignment = (alignment - off mod alignment) mod alignment"

text \<open>
  A sequence of requests \<open>(size, alignment)\<close>, served one after the other; the first
  failure ends it. \<open>padded_end off reqs\<close> is where the cursor stands after the requests,
  counted in the natural numbers from the cursor \<open>off\<close>: the cumulative padded size.
\<close>

fun allocate_all :: "(size_t \<times> size_t) list \<Rightarrow> MemoryArena \<Rightarrow> fault + (size_t list \<times> MemoryArena)" where
  "allocate_all [] ar = Inr ([], ar)"
| "allocate_all ((sz, alignment) # reqs) ar =
     (case allocate sz alignment ar of
        Inl f \<Rightarrow> Inl f
      | Inr (ptr, ar') \<Rightarrow>
          (case allocate_all reqs ar' of
             Inl f \<Rightarrow> Inl f
           | Inr (ptrs, ar'') \<Rightarrow> Inr (ptr # ptrs, ar'')))"

fun padded_end :: "nat \<Rightarrow> (size_t \<times> size_t) list \<Rightarrow> nat" where
  "padded_end off [] = off"
| "padded_end off ((sz, alignment) # reqs) =
     padded_end (off + padding_nat off (unat alignment) + unat sz) reqs"

section \<open>wav\_io.h: WavHeader, WavReader\<close>

text \<open>
  \<open>WavHeader\<close> is the struct of the source, field by field; its field \<open>data\<close> is
  \<open>data_tag\<close> here, and the \<open>char[4]\<close> tags are strings. A file is what \<open>read\<close> sees of it:
  the header that \<open>file.read((char*)&h, sizeof(h))\<close> leaves in \<open>h\<close> (for a file shorter than
  the header the missing fields are whatever the stack held, so every header value is
  possible) and the bytes that follow. The layout of the struct in memory and the byte
  order of the header fields are not modelled. A file system maps a name to a file when
  \<open>std::ifstream\<close> can open it, and says which names \<open>std::ofstream\<close> can open.
\<close>

record WavHeader =
  riff :: string
  fileSize :: "32 word"
  wave :: string
  fmt :: string
  fmtSize :: "32 word"
  audioFormat :: "16 word"
  numChannels :: "16 word"
  sampleRate :: "32 word"
  byteRate :: "32 word"
  blockAlign :: "16 word"
  bitsPerSample :: "16 word"
  data_tag :: string
  dataSize :: "32 word"

record wav_file =
  header :: WavHeader
  payload :: "8 word list"

record filesystem =
  files :: "string \<Rightarrow> wav_file option"
  writable :: "string \<Rightarrow> bool"

text \<open>
  \<open>std::vector::resize(n)\<close>: the first \<open>n\<close> elements stay, new elements are zero.
\<close>

definition vector_resize :: "nat \<Rightarrow> 'a::zero list \<Rightarrow> 'a list" where
  "vector_resize n v = take n v @ replicate (n - length v) 0"

text \<open>
  \<open>std::vector<int16_t> raw(count); file.read((char*)raw.data(), h.dataSize)\<close>: the vector
  starts as zeros, and the read copies the bytes of the file that are there, at most
  \<open>dataSize\<close> of them, over its storage of \<open>2 * count\<close> bytes; more bytes than that (an odd
  \<open>dataSize\<close>) run past the end of the vector. A sample is two bytes, low byte first.
\<close>

definition int16_le :: "8 word \<Rightarrow> 8 word \<Rightarrow> 16 word" where
  "int16_le lo hi = word_cat hi lo"

definition read_raw :: "8 word list \<Rightarrow> nat \<Rightarrow> nat \<Rightarrow> fault + 16 word list" where
  "read_raw bytes n count =
     (let got = take n bytes in
      if length got > 2 * count then Inl BufferOverflow
      else let storage = got @ replicate (2 * count - length got) 0
           in Inr (map (\<lambda>i. int16_le (storage ! (2 * i)) (storage ! (2 * i + 1))) [0..<count]))"

text \<open>
  \<open>read\<close> has the out-parameters \<open>samples\<close>, \<open>sr\<close> and \<open>ch\<close>: the model takes their old
  values and returns the new ones with the result. \<open>h.bitsPerSample / 8\<close> is a division of
  \<open>int\<close>s and \<open>h.dataSize / ...\<close> one of unsigned 32-bit values; a divisor 0 is a division
  by zero. \<open>raw[i] / 32768.0f\<close> is exact in \<open>float\<close>, so the \<open>real\<close> quotient is the value
  stored.
\<close>

definition WavReader_read ::
  "filesystem \<Rightarrow> string \<Rightarrow> real list \<Rightarrow> 32 word \<Rightarrow> 16 word
     \<Rightarrow> fault + (bool \<times> real list \<times> 32 word \<times> 16 word)" where
  "WavReader_read fs filename samples sr ch =
     (case files fs filename of
        None \<Rightarrow> Inr (False, samples, sr, ch)
      | Some file \<Rightarrow>
          let h = header file in
          if take 4 (riff h) \<noteq> ''RIFF'' then Inr (False, samples, sr, ch)
          else
            let sr = sampleRate h;
                ch = numChannels h
            in if unat (bitsPerSample h) div 8 = 0 then Inl DivisionByZero
               else
                 let count = unat (dataSize h) div (unat (bitsPerSample h) div 8);
                     samples = vector_resize count samples
                 in if bitsPerSample h = 16 then
                      (case read_raw (payload file) (unat (dataSize h)) count of
                         Inl f \<Rightarrow> Inl f
                       | Inr raw \<Rightarrow>
                           Inr (True,
                                fold (\<lambda>i s. s[i := real_of_int (sint (raw ! i)) / 32768]) [0..<count] samples,
                                sr, ch))
                    else Inr (True, samples, sr, ch))"

text \<open>
  \<open>write\<close>: every field of \<open>h\<close> is assigned before \<open>h\<close> is written, in the order of the
  source. \<open>static_cast<int16_t>\<close> truncates towards zero; on a product outside the range
  of \<open>int16_t\<close> C++ leaves the result open, and the model keeps the low 16 bits. The
  product \<open>s * 32767.0f\<close> is taken in \<open>real\<close>.
\<close>

definition float_to_int16 :: "real \<Rightarrow> 16 word" where
  "float_to_int16 x = word_of_int (if 0 \<le> x then \<lfloor>x\<rfloor> else \<lceil>x\<rceil>)"

definition int16_bytes :: "16 word \<Rightarrow> 8 word list" where
  "int16_bytes v = [ucast v, ucast (drop_bit 8 v)]"

definition WavReader_write ::
  "filesystem \<Rightarrow> string \<Rightarrow> real list \<Rightarrow> 32 word \<Rightarrow> 16 word \<Rightarrow> bool \<times> filesystem" where
  "WavReader_write fs filename samples sr ch =
     (if \<not> writable fs filename then (False, fs)
      else
        let h = \<lparr>riff = ''RIFF'', fileSize = 0, wave = ''WAVE'', fmt = ''fmt '', fmtSize = 0,
                 audioFormat = 0, numChannels = 0, sampleRate = 0, byteRate = 0, blockAlign = 0,
                 bitsPerSample = 0, data_tag = ''data'', dataSize = 0\<rparr>;
            h = h\<lparr>fmtSize := 16, audioFormat := 1, numChannels := ch\<rparr>;
            h = h\<lparr>sampleRate := sr, bitsPerSample := 16\<rparr>;
            h = h\<lparr>blockAlign := ch * 2\<rparr>;
            h = h\<lparr>byteRate := sr * ucast (blockAlign h)\<rparr>;
            h = h\<lparr>dataSize := word_of_nat (length samples * 2)\<rparr>;
            h = h\<lparr>fileSize := 36 + dataSize h\<rparr>;
            file = \<lparr>header = h,
                    payload = concat (map (\<lambda>s. int16_bytes (float_to_int16 (s * 32767))) samples)\<rparr>
        in (True, fs\<lparr>files := (files fs)(filename \<mapsto> file)\<rparr>))"

section \<open>main.cpp: AudioEngine\<close>

text \<open>
  The fields \<open>sampleRate\<close> and \<open>channels\<close> of the class are \<open>sampleRate'\<close> and \<open>channels'\<close>
  here. The three vectors hold \<open>float\<close>s, modelled as \<open>real\<close>s. \<open>loadFiles\<close> passes the
  engine's own fields to \<open>read\<close> as out-parameters, so what \<open>read\<close> returns in them is
  stored in the engine whether \<open>read\<close> succeeds or not.
\<close>

record AudioEngine =
  arena :: MemoryArena
  buffer1 :: "real list"
  buffer2 :: "real list"
  outputBuffer :: "real list"
  sampleRate' :: "32 word"
  channels' :: "16 word"

definition AudioEngine_new :: "size_t \<Rightarrow> AudioEngine" where
  "AudioEngine_new arenaSize =
     \<lparr>arena = MemoryArena_new arenaSize, buffer1 = [], buffer2 = [], outputBuffer = [],
      sampleRate' = 44100, channels' = 2\<rparr>"

definition loadFiles :: "filesystem \<Rightarrow> string \<Rightarrow> string \<Rightarrow> AudioEngine \<Rightarrow> fault + (bool \<times> AudioEngine)" where
  "loadFiles fs f1 f2 eng =
     (case WavReader_read fs f1 (buffer1 eng) (sampleRate' eng) (channels' eng) of
        Inl f \<Rightarrow> Inl f
      | Inr (ok1, samples1, sr1, ch1) \<Rightarrow>
          let eng = eng\<lparr>buffer1 := samples1, sampleRate' := sr1, channels' := ch1\<rparr> in
          if \<not> ok1 then Inr (False, eng)
          else
            (case WavReader_read fs f2 (buffer2 eng) (sampleRate' eng) (channels' eng) of
               Inl f \<Rightarrow> Inl f
             | Inr (ok2, samples2, sr2, ch2) \<Rightarrow>
                 let eng = eng\<lparr>buffer2 := samples2, sampleRate' := sr2, channels' := ch2\<rparr> in
                 if \<not> ok2 then Inr (False, eng)
                 else Inr (True, eng\<lparr>outputBuffer :=
                        vector_resize (max (length (buffer1 eng)) (length (buffer2 eng))) (outputBuffer eng)\<rparr>)))"

text \<open>
  \<open>process\<close> builds three views over the storage of the three vectors, which are distinct
  objects: in the memory of the model they lie one after the other. The nodes run on that
  memory and the vectors are read back from it.
\<close>

definition vector_memory :: "real list \<Rightarrow> real memory" where
  "vector_memory cells = (\<lambda>q. if q < length cells then cells ! q else 0)"

definition process :: "bool \<Rightarrow> real \<Rightarrow> real \<Rightarrow> AudioEngine \<Rightarrow> AudioEngine" where
  "process avx g1 g2 eng =
     (let n1 = length (buffer1 eng);
          n2 = length (buffer2 eng);
          n3 = length (outputBuffer eng);
          mem = vector_memory (buffer1 eng @ buffer2 eng @ outputBuffer eng);
          b1 = \<lparr>data = 0, size' = n1, channels = 1\<rparr>;
          b2 = \<lparr>data = n1, size' = n2, channels = 1\<rparr>;
          out = \<lparr>data = n1 + n2, size' = n3, channels = 1\<rparr>;
          mem = GainNode_process avx g1 b1 mem;
          mem = GainNode_process avx g2 b2 mem;
          mem = MixerNode_mix avx b1 b2 out mem
      in eng\<lparr>buffer1 := map mem [0..<n1],
              buffer2 := map mem [n1..<n1 + n2],
              outputBuffer := map mem [n1 + n2..<n1 + n2 + n3]\<rparr>)"

definition save :: "filesystem \<Rightarrow> string \<Rightarrow> AudioEngine \<Rightarrow> bool \<times> filesystem" where
  "save fs out eng = WavReader_write fs out (outputBuffer eng) (sampleRate' eng) (channels' eng)"

subsection \<open>Test data\<close>

text \<open>
  A header as \<open>write\<close> lays it out, for a sample rate, a channel count, a bit depth and a
  data size; and a file system with four files: \<open>a.wav\<close> (48000 Hz, mono, 16 bit, the
  samples 16384 and 8192), \<open>b.wav\<close> (22050 Hz, stereo, 16 bit, the sample 16384),
  \<open>c.wav\<close> (8 bit, four bytes of data) and \<open>d.wav\<close> (the same with \<open>bitsPerSample = 0\<close>).
  Every other name cannot be opened for reading.
\<close>

definition test_header :: "32 word \<Rightarrow> 16 word \<Rightarrow> 16 word \<Rightarrow> 32 word \<Rightarrow> WavHeader" where
  "test_header sr ch bits dsize = \<lparr>riff = ''RIFF'', fileSize = 36 + dsize, wave = ''WAVE'', fmt = ''fmt '', fmtSize = 16,
     audioFormat = 1, numChannels = ch, sampleRate = sr, byteRate = sr * ucast (ch * 2), blockAlign = ch * 2,
     bitsPerSample = bits, data_tag = ''data'', dataSize = dsize\<rparr>"

definition test_fs :: filesystem where
  "test_fs = \<lparr>files = (\<lambda>n. if n = ''a.wav'' then Some \<lparr>header = test_header 48000 1 16 4, payload = [0, 64, 0, 32]\<rparr>
                       else if n = ''b.wav'' then Some \<lparr>header = test_header 22050 2 16 2, payload = [0, 64]\<rparr>
                       else if n = ''c.wav'' then Some \<lparr>header = test_header 22050 2 8 4, payload = [1, 2, 3, 4]\<rparr>
                       else if n = ''d.wav'' then Some \<lparr>header = test_header 22050 2 0 4, payload = [1, 2, 3, 4]\<rparr>
                       else None),
           writable = (\<lambda>n. True)\<rparr>"

section \<open>Proofs: LockFreeRingBuffer\<close>

lemma mod_twice: "a < 2 * N \<Longrightarrow> a mod N = (if a < N then a else a - N)" for a N :: nat
  by (simp add: le_mod_geq)

lemma full_iff:
  fixes w r N :: nat
  assumes "w < N" "r < N"
  shows "(Suc w mod N = r) = ((w + N - r) mod N = N - 1)"
proof -
  have a: "Suc w mod N = (if Suc w < N then Suc w else Suc w - N)"
    using assms by (intro mod_twice) arith
  have b: "(w + N - r) mod N = (if w + N - r < N then w + N - r else w + N - r - N)"
    using assms by (intro mod_twice) arith
  show ?thesis unfolding a b using assms by (auto split: if_splits)
qed

lemma count_succ:
  fixes w r N :: nat
  assumes "w < N" "r < N" "Suc w mod N \<noteq> r"
  shows "(Suc w mod N + N - r) mod N = Suc ((w + N - r) mod N)"
proof -
  have a: "Suc w mod N = (if Suc w < N then Suc w else Suc w - N)"
    using assms by (intro mod_twice) arith
  have b: "(w + N - r) mod N = (if w + N - r < N then w + N - r else w + N - r - N)"
    using assms by (intro mod_twice) arith
  have c: "(x + N - r) mod N = (if x + N - r < N then x + N - r else x + N - r - N)" if "x < N" for x
    using assms that by (intro mod_twice) arith
  have d: "(if Suc w < N then Suc w else Suc w - N) < N" using assms by auto
  show ?thesis using assms(3) unfolding a b c[OF d] using assms(1,2) by (auto split: if_splits)
qed

lemma count_pred:
  fixes w r N :: nat
  assumes "w < N" "r < N" "r \<noteq> w"
  shows "Suc ((w + N - Suc r mod N) mod N) = (w + N - r) mod N"
proof -
  have a: "Suc r mod N = (if Suc r < N then Suc r else Suc r - N)"
    using assms by (intro mod_twice) arith
  have b: "(w + N - x) mod N = (if w + N - x < N then w + N - x else w + N - x - N)" for x
    using assms by (intro mod_twice) arith
  show ?thesis unfolding a b using assms by (auto split: if_splits)
qed

lemma idx_last:
  fixes w r N :: nat
  assumes "w < N" "r < N"
  shows "(r + (w + N - r) mod N) mod N = w"
proof -
  have b: "(w + N - r) mod N = (if w + N - r < N then w + N - r else w + N - r - N)"
    using assms by (intro mod_twice) arith
  have c: "(r + x) mod N = (if r + x < N then r + x else r + x - N)" if "x < N" for x
    using assms that by (intro mod_twice) arith
  have d: "(if w + N - r < N then w + N - r else w + N - r - N) < N" using assms by auto
  show ?thesis unfolding b c[OF d] using assms by (auto split: if_splits)
qed

lemma idx_neq:
  fixes w r N k :: nat
  assumes "w < N" "r < N" "k < (w + N - r) mod N"
  shows "(r + k) mod N \<noteq> w"
proof -
  have b: "(w + N - r) mod N = (if w + N - r < N then w + N - r else w + N - r - N)"
    using assms by (intro mod_twice) arith
  have "(w + N - r) mod N < N" using assms(1) by simp
  with assms(3) have "k < N" by (rule less_trans)
  then have c: "(r + k) mod N = (if r + k < N then r + k else r + k - N)"
    using assms by (intro mod_twice) arith
  show ?thesis using assms(3) unfolding b c using assms(1,2) by (auto split: if_splits)
qed

lemma idx_shift: "(Suc r mod N + k) mod N = (r + Suc k) mod N" for r k N :: nat
  by (metis add_Suc add_Suc_right mod_add_left_eq)

lemma length_rb_contents: "length (rb_contents N rb) = rb_count N rb"
  by (simp add: rb_contents_def)

lemma push_full:
  assumes "rb_inv N rb" "rb_count N rb = N - 1"
  shows "push N x rb = Inr (False, rb)"
  using assms full_iff[of "writePos rb" N "readPos rb"]
  by (auto simp: push_def rb_inv_def rb_count_def Let_def)

lemma push_ok:
  assumes "rb_inv N rb" "rb_count N rb \<noteq> N - 1"
  shows "\<exists>rb'. push N x rb = Inr (True, rb') \<and> rb_inv N rb' \<and>
           rb_contents N rb' = rb_contents N rb @ [x] \<and> readPos rb' = readPos rb"
proof -
  let ?w = "writePos rb" and ?r = "readPos rb"
  let ?rb' = "rb\<lparr>buffer := (buffer rb)[?w := x], writePos := Suc ?w mod N\<rparr>"
  from assms have w: "?w < N" and r: "?r < N" and len: "length (buffer rb) = N"
    by (simp_all add: rb_inv_def)
  from assms(2) have nf: "Suc ?w mod N \<noteq> ?r"
    using full_iff[OF w r] by (simp add: rb_count_def)
  have p: "push N x rb = Inr (True, ?rb')"
    using w nf by (simp add: push_def Let_def)
  have i: "rb_inv N ?rb'" using w r len by (simp add: rb_inv_def)
  have c: "rb_count N ?rb' = Suc (rb_count N rb)"
    using count_succ[OF w r nf] by (simp add: rb_count_def)
  have old: "(buffer rb)[?w := x] ! ((?r + k) mod N) = buffer rb ! ((?r + k) mod N)"
    if "k < rb_count N rb" for k
    using idx_neq[OF w r, of k] that by (simp add: rb_count_def)
  have new: "(buffer rb)[?w := x] ! ((?r + rb_count N rb) mod N) = x"
    using idx_last[OF w r] w len by (simp add: rb_count_def)
  have "rb_contents N ?rb' = rb_contents N rb @ [x]"
    unfolding rb_contents_def c using old new by simp
  with p i show ?thesis by auto
qed

lemma pop_empty:
  assumes "rb_count N rb = 0" "rb_inv N rb"
  shows "pop N v rb = Inr (False, v, rb)"
proof -
  from assms have w: "writePos rb < N" and r: "readPos rb < N" by (simp_all add: rb_inv_def)
  have "readPos rb = writePos rb"
    using idx_last[OF w r] assms(1) r by (simp add: rb_count_def)
  then show ?thesis by (simp add: pop_def)
qed

lemma pop_ok:
  assumes "rb_inv N rb" "rb_count N rb \<noteq> 0"
  shows "\<exists>rb'. pop N v rb = Inr (True, hd (rb_contents N rb), rb') \<and> rb_inv N rb' \<and>
           rb_contents N rb' = tl (rb_contents N rb) \<and> writePos rb' = writePos rb"
proof -
  let ?w = "writePos rb" and ?r = "readPos rb"
  let ?rb' = "rb\<lparr>readPos := Suc ?r mod N\<rparr>"
  from assms have w: "?w < N" and r: "?r < N" and len: "length (buffer rb) = N"
    by (simp_all add: rb_inv_def)
  have ne: "?r \<noteq> ?w" using assms(2) w by (auto simp: rb_count_def)
  have p: "pop N v rb = Inr (True, buffer rb ! ?r, ?rb')"
    using ne r by (simp add: pop_def Let_def)
  have i: "rb_inv N ?rb'" using w r len by (simp add: rb_inv_def)
  have c: "rb_count N rb = Suc (rb_count N ?rb')"
    using count_pred[OF w r ne] by (simp add: rb_count_def)
  have h: "hd (rb_contents N rb) = buffer rb ! ?r"
    unfolding rb_contents_def c using r by (simp add: upt_conv_Cons del: upt_Suc)
  have t: "rb_contents N ?rb' = tl (rb_contents N rb)"
    unfolding rb_contents_def c
    by (simp add: upt_conv_Cons idx_shift map_Suc_upt[symmetric] del: upt_Suc)
  from p i h t show ?thesis by auto
qed

lemma rb_contents_Nil: "rb_count N rb = 0 \<Longrightarrow> rb_contents N rb = []"
  by (simp add: rb_contents_def)

lemma run_fifo:
  assumes "0 < N"
  shows "rb_inv N rb \<Longrightarrow> enq = deq @ rb_contents N rb \<Longrightarrow>
         \<exists>enq' deq' v' rb'. run N ops (enq, deq, v, rb) = Inr (enq', deq', v', rb') \<and>
            rb_inv N rb' \<and> enq' = deq' @ rb_contents N rb'"
proof (induction ops arbitrary: enq deq v rb)
  case Nil
  then show ?case by simp
next
  case (Cons a ops)
  show ?case
  proof (cases a)
    case (Push x)
    show ?thesis
    proof (cases "rb_count N rb = N - 1")
      case True
      from push_full[OF Cons.prems(1) True, of x] Cons.IH[OF Cons.prems] Push
      show ?thesis by simp
    next
      case False
      from push_ok[OF Cons.prems(1) False, of x]
      obtain rb' where p: "push N x rb = Inr (True, rb')" and i: "rb_inv N rb'"
        and c: "rb_contents N rb' = rb_contents N rb @ [x]" by blast
      have "enq @ [x] = deq @ rb_contents N rb'" using c Cons.prems(2) by simp
      from Cons.IH[OF i this] p Push show ?thesis by simp
    qed
  next
    case Pop
    show ?thesis
    proof (cases "rb_count N rb = 0")
      case True
      from pop_empty[OF True Cons.prems(1), of v] Cons.IH[OF Cons.prems] Pop
      show ?thesis by simp
    next
      case False
      from pop_ok[OF Cons.prems(1) False, of v]
      obtain rb' where p: "pop N v rb = Inr (True, hd (rb_contents N rb), rb')" and i: "rb_inv N rb'"
        and c: "rb_contents N rb' = tl (rb_contents N rb)" by blast
      from False have "rb_contents N rb \<noteq> []"
        using length_rb_contents[of N rb] by auto
      then have "enq = (deq @ [hd (rb_contents N rb)]) @ rb_contents N rb'"
        using c Cons.prems(2) by simp
      from Cons.IH[OF i this] p Pop show ?thesis by simp
    qed
  qed
qed

lemma run_pushes:
  assumes "0 < N"
  shows "rb_inv N rb \<Longrightarrow> rb_count N rb + length xs \<le> N - 1 \<Longrightarrow>
         \<exists>rb'. run N (map Push xs) (enq, deq, v, rb) = Inr (enq @ xs, deq, v, rb') \<and>
            rb_inv N rb' \<and> rb_contents N rb' = rb_contents N rb @ xs"
proof (induction xs arbitrary: enq rb)
  case Nil
  then show ?case by simp
next
  case (Cons x xs)
  from Cons.prems(2) have nf: "rb_count N rb \<noteq> N - 1" by simp
  from push_ok[OF Cons.prems(1) nf, of x]
  obtain rb1 where p: "push N x rb = Inr (True, rb1)" and i: "rb_inv N rb1"
    and c: "rb_contents N rb1 = rb_contents N rb @ [x]" by blast
  have "rb_count N rb1 = Suc (rb_count N rb)"
    using c length_rb_contents[of N rb1] length_rb_contents[of N rb] by simp
  with Cons.prems(2) have "rb_count N rb1 + length xs \<le> N - 1" by simp
  from Cons.IH[OF i this, of "enq @ [x]"] p c show ?case by auto
qed

lemma rb_inv_empty: "0 < N \<Longrightarrow> length slots = N \<Longrightarrow> rb_inv N (empty_rb slots)"
  by (simp add: rb_inv_def empty_rb_def)

lemma rb_count_empty: "0 < N \<Longrightarrow> rb_count N (empty_rb slots) = 0"
  by (simp add: rb_count_def empty_rb_def)

lemma store_contents:
  assumes "rb_inv N rb"
  shows "rb_contents N (rb\<lparr>buffer := (buffer rb)[writePos rb := x]\<rparr>) = rb_contents N rb"
proof -
  from assms have w: "writePos rb < N" and r: "readPos rb < N" by (simp_all add: rb_inv_def)
  have "(buffer rb)[writePos rb := x] ! ((readPos rb + k) mod N) = buffer rb ! ((readPos rb + k) mod N)"
    if "k < rb_count N rb" for k
    using idx_neq[OF w r, of k] that by (simp add: rb_count_def)
  then show ?thesis by (simp add: rb_contents_def rb_count_def)
qed

lemma publish_contents:
  assumes "rb_inv N rb" "Suc (writePos rb) mod N \<noteq> readPos rb"
  shows "rb_contents N (rb\<lparr>writePos := Suc (writePos rb) mod N\<rparr>) =
         rb_contents N rb @ [buffer rb ! writePos rb]"
proof -
  from assms have w: "writePos rb < N" and r: "readPos rb < N" by (simp_all add: rb_inv_def)
  have c: "rb_count N (rb\<lparr>writePos := Suc (writePos rb) mod N\<rparr>) = Suc (rb_count N rb)"
    using count_succ[OF w r assms(2)] by (simp add: rb_count_def)
  show ?thesis unfolding rb_contents_def c using idx_last[OF w r] by (simp add: rb_count_def)
qed

lemma consume_contents:
  assumes "rb_inv N rb" "readPos rb \<noteq> writePos rb"
  shows "rb_contents N rb = buffer rb ! readPos rb # rb_contents N (rb\<lparr>readPos := Suc (readPos rb) mod N\<rparr>)"
proof -
  from assms have w: "writePos rb < N" and r: "readPos rb < N" by (simp_all add: rb_inv_def)
  have c: "rb_count N rb = Suc (rb_count N (rb\<lparr>readPos := Suc (readPos rb) mod N\<rparr>))"
    using count_pred[OF w r assms(2)] by (simp add: rb_count_def)
  show ?thesis unfolding rb_contents_def c using r
    by (simp add: upt_conv_Cons idx_shift map_Suc_upt[symmetric] del: upt_Suc)
qed

lemma succ_mod_inj:
  fixes w r N :: nat
  assumes "w < N" "r < N" "r \<noteq> w"
  shows "Suc w mod N \<noteq> Suc r mod N"
proof -
  have a: "Suc x mod N = (if Suc x < N then Suc x else Suc x - N)" if "x < N" for x
    using that by (intro mod_twice) arith
  show ?thesis unfolding a[OF assms(1)] a[OF assms(2)] using assms by (auto split: if_splits)
qed

lemma producer_step_inv:
  assumes "0 < N" "spsc_inv N s"
  shows "\<exists>s'. producer_step N x s = Inr s' \<and> spsc_inv N s'"
proof (cases "p_pc s")
  case P_idle
  with assms show ?thesis by (auto simp: producer_step_def spsc_inv_def)
next
  case P_loaded
  with assms show ?thesis by (auto simp: producer_step_def spsc_inv_def)
next
  case P_checked
  from assms(2) have i: "rb_inv N (queue s)" by (simp add: spsc_inv_def)
  from assms(2) P_checked have cw: "currentWrite s = writePos (queue s)" by (simp add: spsc_inv_def)
  have w: "writePos (queue s) < length (buffer (queue s))" using i by (simp add: rb_inv_def)
  note sc = store_contents[OF i, of "p_item s"]
  show ?thesis using assms P_checked w sc
    by (auto simp: producer_step_def spsc_inv_def rb_inv_def)
next
  case P_stored
  from assms(2) have i: "rb_inv N (queue s)" by (simp add: spsc_inv_def)
  from assms(2) P_stored have nw: "nextWrite s = Suc (writePos (queue s)) mod N"
    and nf: "Suc (writePos (queue s)) mod N \<noteq> readPos (queue s)"
    by (simp_all add: spsc_inv_def)
  note pc = publish_contents[OF i nf]
  show ?thesis using assms P_stored pc nf
    by (auto simp: producer_step_def spsc_inv_def rb_inv_def)
qed

lemma consumer_step_inv:
  assumes "0 < N" "spsc_inv N s"
  shows "\<exists>s'. consumer_step N s = Inr s' \<and> spsc_inv N s'"
proof (cases "c_pc s")
  case C_idle
  with assms show ?thesis by (auto simp: consumer_step_def spsc_inv_def)
next
  case C_loaded
  with assms show ?thesis by (auto simp: consumer_step_def spsc_inv_def)
next
  case C_checked
  with assms show ?thesis by (auto simp: consumer_step_def spsc_inv_def)
next
  case C_copied
  from assms(2) have i: "rb_inv N (queue s)" by (simp add: spsc_inv_def)
  from assms(2) C_copied have ne: "readPos (queue s) \<noteq> writePos (queue s)"
    by (simp_all add: spsc_inv_def)
  from i have w: "writePos (queue s) < N" and r: "readPos (queue s) < N" by (simp_all add: rb_inv_def)
  note cc = consume_contents[OF i ne] and inj = succ_mod_inj[OF w r ne]
  show ?thesis using assms C_copied cc inj
    by (auto simp: consumer_step_def spsc_inv_def rb_inv_def)
qed

lemma interleave_inv:
  assumes "0 < N"
  shows "spsc_inv N s \<Longrightarrow> \<exists>s'. interleave N sched s = Inr s' \<and> spsc_inv N s'"
proof (induction sched arbitrary: s)
  case Nil
  then show ?case by simp
next
  case (Cons a sched)
  show ?case
  proof (cases a)
    case (Producer x)
    from producer_step_inv[OF assms Cons.prems, of x] obtain s1
      where "producer_step N x s = Inr s1" "spsc_inv N s1" by blast
    with Cons.IH[of s1] Producer show ?thesis by simp
  next
    case Consumer
    from consumer_step_inv[OF assms Cons.prems] obtain s1
      where "consumer_step N s = Inr s1" "spsc_inv N s1" by blast
    with Cons.IH[of s1] Consumer show ?thesis by simp
  qed
qed

lemma spsc_inv_init: "0 < N \<Longrightarrow> length slots = N \<Longrightarrow> spsc_inv N (spsc_init slots x0 v0)"
  using rb_inv_empty[of N slots] rb_contents_Nil[OF rb_count_empty, of N slots]
  by (simp add: spsc_inv_def spsc_init_def)


text \<open>
  The steps of one thread, run without a step of the other thread in between, are the
  whole call: four steps when it returns true, two when it returns false.
\<close>

lemma producer_steps_push:
  assumes "p_pc s = P_idle" and "push N x (queue s) = Inr (ok, rb')"
  shows "\<exists>s'. interleave N (if ok then [Producer x, Producer x, Producer x, Producer x]
                          else [Producer x, Producer x]) s = Inr s' \<and>
              queue s' = rb' \<and> p_pc s' = P_idle \<and>
              enqueued s' = (if ok then enqueued s @ [x] else enqueued s) \<and>
              dequeued s' = dequeued s \<and> c_pc s' = c_pc s \<and> c_item s' = c_item s \<and>
              currentRead s' = currentRead s"
  using assms
  by (auto simp: push_def producer_step_def Let_def split: if_splits)

lemma consumer_steps_pop:
  assumes "c_pc s = C_idle" and "pop N (c_item s) (queue s) = Inr (ok, v, rb')"
  shows "\<exists>s'. interleave N (if ok then [Consumer, Consumer, Consumer, Consumer]
                          else [Consumer, Consumer]) s = Inr s' \<and>
              queue s' = rb' \<and> c_pc s' = C_idle \<and> c_item s' = v \<and>
              dequeued s' = (if ok then dequeued s @ [v] else dequeued s) \<and>
              enqueued s' = enqueued s \<and> p_pc s' = p_pc s \<and> p_item s' = p_item s"
  using assms
  by (auto simp: pop_def consumer_step_def Let_def split: if_splits)

lemma rb_count_le: "0 < N \<Longrightarrow> rb_count N rb \<le> N - 1"
proof -
  assume "0 < N"
  then have "(writePos rb + N - readPos rb) mod N < N" by (rule mod_less_divisor)
  then show ?thesis unfolding rb_count_def by arith
qed

lemma spsc_inv_lengths:
  assumes "0 < N" "spsc_inv N s"
  shows "length (enqueued s) = length (dequeued s) + rb_count N (queue s)"
  using assms(2) length_rb_contents[of N "queue s"] by (simp add: spsc_inv_def)

lemma consumer_solo:
  assumes "0 < N" "spsc_inv N s" "c_pc s = C_idle"
  shows "if length (dequeued s) < length (enqueued s)
         then \<exists>s'. interleave N [Consumer, Consumer, Consumer, Consumer] s = Inr s' \<and>
                dequeued s' = dequeued s @ [enqueued s ! length (dequeued s)] \<and>
                c_item s' = enqueued s ! length (dequeued s) \<and>
                enqueued s' = enqueued s \<and> c_pc s' = C_idle
         else \<exists>s'. interleave N [Consumer, Consumer] s = Inr s' \<and>
                dequeued s' = dequeued s \<and> enqueued s' = enqueued s \<and>
                queue s' = queue s \<and> c_item s' = c_item s \<and> c_pc s' = C_idle"
proof -
  from assms(2) have i: "rb_inv N (queue s)"
    and e: "enqueued s = dequeued s @ rb_contents N (queue s)" by (simp_all add: spsc_inv_def)
  note l = spsc_inv_lengths[OF assms(1,2)]
  show ?thesis
  proof (cases "length (dequeued s) < length (enqueued s)")
    case True
    then have ne: "rb_count N (queue s) \<noteq> 0" using l by simp
    then have cne: "rb_contents N (queue s) \<noteq> []" using length_rb_contents[of N "queue s"] by auto
    from pop_ok[OF i ne, of "c_item s"] obtain rb' where
      p: "pop N (c_item s) (queue s) = Inr (True, hd (rb_contents N (queue s)), rb')" by blast
    have h: "hd (rb_contents N (queue s)) = enqueued s ! length (dequeued s)"
      using cne by (subst e) (simp add: nth_append hd_conv_nth)
    from consumer_steps_pop[OF assms(3) p] True h show ?thesis by auto
  next
    case False
    then have z: "rb_count N (queue s) = 0" using l by simp
    from pop_empty[OF z i, of "c_item s"]
    have p: "pop N (c_item s) (queue s) = Inr (False, c_item s, queue s)" .
    from consumer_steps_pop[OF assms(3) p] False show ?thesis by auto
  qed
qed

lemma producer_solo:
  assumes "0 < N" "spsc_inv N s" "p_pc s = P_idle"
  shows "if length (enqueued s) < length (dequeued s) + (N - 1)
         then \<exists>s'. interleave N [Producer x, Producer x, Producer x, Producer x] s = Inr s' \<and>
                enqueued s' = enqueued s @ [x] \<and> dequeued s' = dequeued s \<and> p_pc s' = P_idle
         else \<exists>s'. interleave N [Producer x, Producer x] s = Inr s' \<and>
                enqueued s' = enqueued s \<and> dequeued s' = dequeued s \<and>
                queue s' = queue s \<and> p_pc s' = P_idle"
proof -
  from assms(2) have i: "rb_inv N (queue s)" by (simp add: spsc_inv_def)
  note l = spsc_inv_lengths[OF assms(1,2)] and b = rb_count_le[OF assms(1), of "queue s"]
  show ?thesis
  proof (cases "length (enqueued s) < length (dequeued s) + (N - 1)")
    case True
    then have nf: "rb_count N (queue s) \<noteq> N - 1" using l by simp
    from push_ok[OF i nf, of x] obtain rb' where
      p: "push N x (queue s) = Inr (True, rb')" by blast
    from producer_steps_push[OF assms(3) p] True show ?thesis by auto
  next
    case False
    then have f: "rb_count N (queue s) = N - 1" using l b by simp
    from push_full[OF i f, of x]
    have p: "push N x (queue s) = Inr (False, queue s)" .
    from producer_steps_push[OF assms(3) p] False show ?thesis by auto
  qed
qed

text \<open>
  Claim C1. For a buffer of \<open>Size = N > 0\<close> that starts empty: \<open>N - 1\<close> successive pushes all
  return true; in the state they reach, every further push returns false and leaves the
  state as it is; a pop that returns true there is followed by a push that returns true
  (and for \<open>N > 1\<close> that pop does return true, with the first item pushed); pop on an empty
  buffer returns false and changes neither the buffer nor the caller's variable; for every
  sequence of whole calls the items popped are, in order, an initial segment of the items
  pushed, and the items pushed and not yet popped are the ones the buffer holds, oldest
  first.

  The same holds when one producer and one consumer are interleaved at each load and
  store. No schedule faults. In the state \<open>s\<close> that a schedule reaches, the items delivered
  are, in order, an initial segment of the items accepted, and at most \<open>N - 1\<close> accepted
  items are not yet delivered; a slot is never written and read at the same time. From
  \<open>s\<close>, an idle consumer that runs a whole call is handed the oldest accepted item not yet
  delivered, and when there is none its call returns false and changes nothing; an idle
  producer that runs a whole call has its item accepted when fewer than \<open>N - 1\<close> items are
  pending, and otherwise its call returns false and changes nothing. The steps of a thread
  that runs alone are the call: they end in the state and with the result of \<open>push\<close> or
  \<open>pop\<close>.
\<close>

theorem ring_buffer_capacity_fifo:
  fixes slots :: "'a list"
  assumes "0 < N" and "length slots = N"
  shows "(\<forall>xs v. length xs = N - 1 \<longrightarrow>
           (\<exists>full. run N (map Push xs) ([], [], v, empty_rb slots) = Inr (xs, [], v, full) \<and>
              (\<forall>y. push N y full = Inr (False, full)) \<and>
              (\<forall>v1 v2 rb1 z. pop N v1 full = Inr (True, v2, rb1) \<longrightarrow>
                  (\<exists>rb2. push N z rb1 = Inr (True, rb2))) \<and>
              (1 < N \<longrightarrow> (\<exists>rb1. pop N v full = Inr (True, hd xs, rb1))))) \<and>
         (\<forall>(rb :: 'a LockFreeRingBuffer) v. isEmpty rb \<longrightarrow> pop N v rb = Inr (False, v, rb)) \<and>
         (\<forall>ops v. \<exists>enq deq v' rb'.
            run N ops ([], [], v, empty_rb slots) = Inr (enq, deq, v', rb') \<and> prefix deq enq \<and>
            enq = deq @ rb_contents N rb') \<and>
         (\<forall>sched x0 v0. \<exists>s.
            interleave N sched (spsc_init slots x0 v0) = Inr s \<and>
            prefix (dequeued s) (enqueued s) \<and>
            length (enqueued s) \<le> length (dequeued s) + (N - 1) \<and>
            (p_pc s = P_checked \<and> c_pc s = C_checked \<longrightarrow> currentWrite s \<noteq> currentRead s) \<and>
            (c_pc s = C_idle \<longrightarrow>
               (if length (dequeued s) < length (enqueued s)
                then \<exists>s'. interleave N [Consumer, Consumer, Consumer, Consumer] s = Inr s' \<and>
                       dequeued s' = dequeued s @ [enqueued s ! length (dequeued s)] \<and>
                       c_item s' = enqueued s ! length (dequeued s) \<and>
                       enqueued s' = enqueued s \<and> c_pc s' = C_idle
                else \<exists>s'. interleave N [Consumer, Consumer] s = Inr s' \<and>
                       dequeued s' = dequeued s \<and> enqueued s' = enqueued s \<and>
                       queue s' = queue s \<and> c_item s' = c_item s \<and> c_pc s' = C_idle)) \<and>
            (p_pc s = P_idle \<longrightarrow>
               (\<forall>x. if length (enqueued s) < length (dequeued s) + (N - 1)
                    then \<exists>s'. interleave N [Producer x, Producer x, Producer x, Producer x] s = Inr s' \<and>
                           enqueued s' = enqueued s @ [x] \<and> dequeued s' = dequeued s \<and>
                           p_pc s' = P_idle
                    else \<exists>s'. interleave N [Producer x, Producer x] s = Inr s' \<and>
                           enqueued s' = enqueued s \<and> dequeued s' = dequeued s \<and>
                           queue s' = queue s \<and> p_pc s' = P_idle))) \<and>
         (\<forall>(s :: 'a spsc) x ok rb'. p_pc s = P_idle \<and> push N x (queue s) = Inr (ok, rb') \<longrightarrow>
            (\<exists>s'. interleave N (if ok then [Producer x, Producer x, Producer x, Producer x]
                                 else [Producer x, Producer x]) s = Inr s' \<and>
               queue s' = rb' \<and> p_pc s' = P_idle \<and>
               enqueued s' = (if ok then enqueued s @ [x] else enqueued s) \<and>
               dequeued s' = dequeued s)) \<and>
         (\<forall>(s :: 'a spsc) ok v rb'. c_pc s = C_idle \<and> pop N (c_item s) (queue s) = Inr (ok, v, rb') \<longrightarrow>
            (\<exists>s'. interleave N (if ok then [Consumer, Consumer, Consumer, Consumer]
                                 else [Consumer, Consumer]) s = Inr s' \<and>
               queue s' = rb' \<and> c_pc s' = C_idle \<and> c_item s' = v \<and>
               dequeued s' = (if ok then dequeued s @ [v] else dequeued s) \<and>
               enqueued s' = enqueued s))"
proof -
  note i0 = rb_inv_empty[OF assms] and c0 = rb_count_empty[OF assms(1), of slots]
  have A: "\<exists>full. run N (map Push xs) ([], [], v, empty_rb slots) = Inr (xs, [], v, full) \<and>
              (\<forall>y. push N y full = Inr (False, full)) \<and>
              (\<forall>v1 v2 rb1 z. pop N v1 full = Inr (True, v2, rb1) \<longrightarrow>
                  (\<exists>rb2. push N z rb1 = Inr (True, rb2))) \<and>
              (1 < N \<longrightarrow> (\<exists>rb1. pop N v full = Inr (True, hd xs, rb1)))"
    if len: "length xs = N - 1" for xs :: "'a list" and v
  proof -
    from len have "rb_count N (empty_rb slots) + length xs \<le> N - 1" using c0 by simp
    from run_pushes[OF assms(1) i0 this, of "[]" "[]" v]
    obtain full where r: "run N (map Push xs) ([], [], v, empty_rb slots) = Inr (xs, [], v, full)"
      and i: "rb_inv N full" and c: "rb_contents N full = xs"
      using rb_contents_Nil[OF c0] by auto
    have cnt: "rb_count N full = N - 1" using c len length_rb_contents[of N full] by simp
    have a: "\<forall>y. push N y full = Inr (False, full)" using push_full[OF i cnt] by simp
    have b: "\<exists>rb2. push N z rb1 = Inr (True, rb2)"
      if "pop N v1 full = Inr (True, v2, rb1)" for v1 v2 rb1 z
    proof -
      have ne: "rb_count N full \<noteq> 0" using that pop_empty[OF _ i, of v1] by auto
      from pop_ok[OF i ne, of v1] that
      have i1: "rb_inv N rb1" and c1: "rb_contents N rb1 = tl (rb_contents N full)"
        by auto
      have "rb_count N rb1 = N - 1 - 1"
        using c1 cnt length_rb_contents[of N rb1] length_rb_contents[of N full] by simp
      with ne cnt have "rb_count N rb1 \<noteq> N - 1" by simp
      from push_ok[OF i1 this, of z] show ?thesis by blast
    qed
    have d: "\<exists>rb1. pop N v full = Inr (True, hd xs, rb1)" if "1 < N"
    proof -
      have ne: "rb_count N full \<noteq> 0" using cnt that by simp
      from pop_ok[OF i ne, of v] c show ?thesis by auto
    qed
    from r a b d show ?thesis by blast
  qed
  have B: "pop N v rb = Inr (False, v, rb)" if "isEmpty rb" for rb :: "'a LockFreeRingBuffer" and v
    using that by (simp add: isEmpty_def pop_def)
  have C: "\<exists>enq deq v' rb'.
            run N ops ([], [], v, empty_rb slots) = Inr (enq, deq, v', rb') \<and> prefix deq enq \<and>
            enq = deq @ rb_contents N rb'"
    for ops :: "'a rb_op list" and v
  proof -
    have "[] = [] @ rb_contents N (empty_rb slots)" using rb_contents_Nil[OF c0] by simp
    from run_fifo[OF assms(1) i0 this, of ops v] show ?thesis
      by (auto simp: prefix_def)
  qed
  have D: "\<exists>s. interleave N sched (spsc_init slots x0 v0) = Inr s \<and>
            prefix (dequeued s) (enqueued s) \<and>
            length (enqueued s) \<le> length (dequeued s) + (N - 1) \<and>
            (p_pc s = P_checked \<and> c_pc s = C_checked \<longrightarrow> currentWrite s \<noteq> currentRead s) \<and>
            (c_pc s = C_idle \<longrightarrow>
               (if length (dequeued s) < length (enqueued s)
                then \<exists>s'. interleave N [Consumer, Consumer, Consumer, Consumer] s = Inr s' \<and>
                       dequeued s' = dequeued s @ [enqueued s ! length (dequeued s)] \<and>
                       c_item s' = enqueued s ! length (dequeued s) \<and>
                       enqueued s' = enqueued s \<and> c_pc s' = C_idle
                else \<exists>s'. interleave N [Consumer, Consumer] s = Inr s' \<and>
                       dequeued s' = dequeued s \<and> enqueued s' = enqueued s \<and>
                       queue s' = queue s \<and> c_item s' = c_item s \<and> c_pc s' = C_idle)) \<and>
            (p_pc s = P_idle \<longrightarrow>
               (\<forall>x. if length (enqueued s) < length (dequeued s) + (N - 1)
                    then \<exists>s'. interleave N [Producer x, Producer x, Producer x, Producer x] s = Inr s' \<and>
                           enqueued s' = enqueued s @ [x] \<and> dequeued s' = dequeued s \<and>
                           p_pc s' = P_idle
                    else \<exists>s'. interleave N [Producer x, Producer x] s = Inr s' \<and>
                           enqueued s' = enqueued s \<and> dequeued s' = dequeued s \<and>
                           queue s' = queue s \<and> p_pc s' = P_idle))"
    for sched :: "'a thread_step list" and x0 v0
  proof -
    from interleave_inv[OF assms(1) spsc_inv_init[OF assms, of x0 v0], of sched]
    obtain s where r: "interleave N sched (spsc_init slots x0 v0) = Inr s" and inv: "spsc_inv N s"
      by blast
    have p: "prefix (dequeued s) (enqueued s)" using inv by (auto simp: spsc_inv_def prefix_def)
    have l: "length (enqueued s) \<le> length (dequeued s) + (N - 1)"
      using spsc_inv_lengths[OF assms(1) inv] rb_count_le[OF assms(1), of "queue s"] by simp
    have x: "currentWrite s \<noteq> currentRead s" if "p_pc s = P_checked \<and> c_pc s = C_checked"
      using inv that by (auto simp: spsc_inv_def)
    note c = consumer_solo[OF assms(1) inv] and q = producer_solo[OF assms(1) inv]
    from r p l x c q show ?thesis by (intro exI[of _ s]) blast
  qed
  have E: "\<exists>s'. interleave N (if ok then [Producer x, Producer x, Producer x, Producer x]
                                 else [Producer x, Producer x]) s = Inr s' \<and>
               queue s' = rb' \<and> p_pc s' = P_idle \<and>
               enqueued s' = (if ok then enqueued s @ [x] else enqueued s) \<and>
               dequeued s' = dequeued s"
    if "p_pc s = P_idle \<and> push N x (queue s) = Inr (ok, rb')" for s :: "'a spsc" and x ok rb'
    using producer_steps_push[of s N x ok rb'] that by blast
  have F: "\<exists>s'. interleave N (if ok then [Consumer, Consumer, Consumer, Consumer]
                                 else [Consumer, Consumer]) s = Inr s' \<and>
               queue s' = rb' \<and> c_pc s' = C_idle \<and> c_item s' = v \<and>
               dequeued s' = (if ok then dequeued s @ [v] else dequeued s) \<and>
               enqueued s' = enqueued s"
    if "c_pc s = C_idle \<and> pop N (c_item s) (queue s) = Inr (ok, v, rb')" for s :: "'a spsc" and ok v rb'
    using consumer_steps_pop[of s N ok v rb'] that by blast
  show ?thesis
    apply (intro conjI allI impI)
         apply (erule A)
        apply (erule B)
       apply (rule C)
      apply (rule D)
     apply (erule E)
    apply (erule F)
    done
qed

theorem ring_buffer_capacity_fifo_witness:
  "0 < (4::nat) \<and> length [0, 0, 0, 0::int] = 4 \<and> length [1, 2, 3::int] = 4 - 1 \<and>
   run 4 (map Push [1, 2, 3]) ([], [], 0, empty_rb [0, 0, 0, 0::int]) =
     Inr ([1, 2, 3], [], 0, \<lparr>buffer = [1, 2, 3, 0], writePos = 3, readPos = 0\<rparr>) \<and>
   push 4 9 \<lparr>buffer = [1, 2, 3, 0::int], writePos = 3, readPos = 0\<rparr> =
     Inr (False, \<lparr>buffer = [1, 2, 3, 0], writePos = 3, readPos = 0\<rparr>) \<and>
   pop 4 0 \<lparr>buffer = [1, 2, 3, 0::int], writePos = 3, readPos = 0\<rparr> =
     Inr (True, 1, \<lparr>buffer = [1, 2, 3, 0], writePos = 3, readPos = 1\<rparr>) \<and>
   (\<exists>rb2. push 4 9 \<lparr>buffer = [1, 2, 3, 0::int], writePos = 3, readPos = 1\<rparr> = Inr (True, rb2)) \<and>
   isEmpty (empty_rb [0, 0, 0, 0::int]) \<and>
   interleave 4 [Producer 5, Consumer, Producer 5, Consumer, Producer 5, Producer 5,
                 Producer 7, Consumer, Producer 7, Consumer, Producer 7, Consumer, Producer 7,
                 Consumer]
       (spsc_init [0, 0, 0, 0::int] 0 0) =
     Inr \<lparr>queue = \<lparr>buffer = [5, 7, 0, 0], writePos = 2, readPos = 1\<rparr>,
          p_pc = P_idle, p_item = 7, currentWrite = 1, nextWrite = 2,
          c_pc = C_idle, c_item = 5, currentRead = 0, enqueued = [5, 7], dequeued = [5]\<rparr> \<and>
   (\<exists>s'. interleave 4 [Consumer, Consumer, Consumer, Consumer]
            \<lparr>queue = \<lparr>buffer = [5, 7, 0, 0::int], writePos = 2, readPos = 1\<rparr>,
             p_pc = P_idle, p_item = 7, currentWrite = 1, nextWrite = 2,
             c_pc = C_idle, c_item = 5, currentRead = 0, enqueued = [5, 7], dequeued = [5]\<rparr> = Inr s' \<and>
          dequeued s' = [5, 7] \<and> c_item s' = 7 \<and> enqueued s' = [5, 7]) \<and>
   interleave 4 [Producer 5, Consumer, Producer 5, Consumer, Producer 5, Producer 5,
                 Producer 7, Consumer, Producer 7, Consumer, Producer 7, Consumer, Producer 7,
                 Consumer, Consumer, Consumer, Consumer, Consumer]
       (spsc_init [0, 0, 0, 0::int] 0 0) =
     Inr \<lparr>queue = \<lparr>buffer = [5, 7, 0, 0], writePos = 2, readPos = 2\<rparr>,
          p_pc = P_idle, p_item = 7, currentWrite = 1, nextWrite = 2,
          c_pc = C_idle, c_item = 7, currentRead = 1, enqueued = [5, 7], dequeued = [5, 7]\<rparr>"
proof -
  have h1: "0 < (4::nat)" and h2: "length [0, 0, 0, 0::int] = 4" by simp_all
  note t = ring_buffer_capacity_fifo[OF h1 h2]
  let ?sched = "[Producer 5, Consumer, Producer 5, Consumer, Producer 5, Producer 5,
                 Producer 7, Consumer, Producer 7, Consumer, Producer 7, Consumer, Producer 7,
                 Consumer] :: int thread_step list"
  let ?mid = "\<lparr>queue = \<lparr>buffer = [5, 7, 0, 0::int], writePos = 2, readPos = 1\<rparr>,
             p_pc = P_idle, p_item = 7, currentWrite = 1, nextWrite = 2,
             c_pc = C_idle, c_item = 5, currentRead = 0, enqueued = [5, 7], dequeued = [5]\<rparr>"
  have e: "run 4 (map Push [1, 2, 3]) ([], [], 0, empty_rb [0, 0, 0, 0::int]) =
     Inr ([1, 2, 3], [], 0, \<lparr>buffer = [1, 2, 3, 0], writePos = 3, readPos = 0\<rparr>)"
    by (simp add: push_def empty_rb_def)
  from t have "\<exists>full. run 4 (map Push [1, 2, 3]) ([], [], 0, empty_rb [0, 0, 0, 0::int]) =
       Inr ([1, 2, 3], [], 0, full) \<and>
     (\<forall>v1 v2 rb1 z. pop 4 v1 full = Inr (True, v2, rb1) \<longrightarrow> (\<exists>rb2. push 4 z rb1 = Inr (True, rb2)))"
    by (elim conjE allE[of _ "[1, 2, 3::int]"] allE[of _ "0::int"]) auto
  with e have p: "\<And>v1 v2 rb1 z.
     pop 4 v1 \<lparr>buffer = [1, 2, 3, 0::int], writePos = 3, readPos = 0\<rparr> = Inr (True, v2, rb1) \<Longrightarrow>
     \<exists>rb2. push 4 z rb1 = Inr (True, rb2)"
    by auto
  have q: "pop 4 0 \<lparr>buffer = [1, 2, 3, 0::int], writePos = 3, readPos = 0\<rparr> =
     Inr (True, 1, \<lparr>buffer = [1, 2, 3, 0], writePos = 3, readPos = 1\<rparr>)"
    by (simp add: pop_def)
  have m: "interleave 4 ?sched (spsc_init [0, 0, 0, 0::int] 0 0) = Inr ?mid"
    by code_simp
  from t have "\<exists>s. interleave 4 ?sched (spsc_init [0, 0, 0, 0::int] 0 0) = Inr s \<and>
      (c_pc s = C_idle \<longrightarrow>
         (if length (dequeued s) < length (enqueued s)
          then \<exists>s'. interleave 4 [Consumer, Consumer, Consumer, Consumer] s = Inr s' \<and>
                 dequeued s' = dequeued s @ [enqueued s ! length (dequeued s)] \<and>
                 c_item s' = enqueued s ! length (dequeued s) \<and>
                 enqueued s' = enqueued s \<and> c_pc s' = C_idle
          else \<exists>s'. interleave 4 [Consumer, Consumer] s = Inr s' \<and>
                 dequeued s' = dequeued s \<and> enqueued s' = enqueued s \<and>
                 queue s' = queue s \<and> c_item s' = c_item s \<and> c_pc s' = C_idle))"
    by (elim conjE allE[of _ ?sched] allE[of _ "0::int"]) blast
  with m have n: "\<exists>s'. interleave 4 [Consumer, Consumer, Consumer, Consumer] ?mid = Inr s' \<and>
          dequeued s' = [5, 7] \<and> c_item s' = 7 \<and> enqueued s' = [5, 7]"
    by auto
  have f: "interleave 4 (?sched @ [Consumer, Consumer, Consumer, Consumer])
       (spsc_init [0, 0, 0, 0::int] 0 0) =
     Inr \<lparr>queue = \<lparr>buffer = [5, 7, 0, 0], writePos = 2, readPos = 2\<rparr>,
          p_pc = P_idle, p_item = 7, currentWrite = 1, nextWrite = 2,
          c_pc = C_idle, c_item = 7, currentRead = 1, enqueued = [5, 7], dequeued = [5, 7]\<rparr>"
    by code_simp
  show ?thesis using e p[OF q] q m n f
    by (simp add: push_def isEmpty_def empty_rb_def)
qed
section \<open>Proofs: GainNode\<close>

lemma gain_scalar_loop_eq:
  "gain_scalar_loop gain buf i mem =
     (\<lambda>q. if data buf + i \<le> q \<and> q < data buf + size' buf then mem q * gain else mem q)"
proof (induction gain buf i mem rule: gain_scalar_loop.induct)
  case (1 gain buf i mem)
  show ?case
  proof (cases "i < size' buf")
    case True
    show ?thesis
      apply (subst gain_scalar_loop.simps)
      apply (simp only: True if_True)
      apply (subst 1[OF True])
      apply (rule ext)
      using True apply auto
      done
  next
    case False
    show ?thesis
      apply (subst gain_scalar_loop.simps)
      apply (rule ext)
      using False apply auto
      done
  qed
qed

lemma simd_block:
  "mm256_storeu_ps mem p (mm256_mul_ps (mm256_loadu_ps mem p) (mm256_set1_ps g)) =
     (\<lambda>q. if p \<le> q \<and> q < p + 8 then mem q * g else mem q)"
  by (auto simp: mm256_storeu_ps_def mm256_mul_ps_def mm256_loadu_ps_def mm256_set1_ps_def fun_eq_iff
      simp del: upt_Suc replicate.simps)

lemma gain_simd_loop_eq:
  "8 dvd simdSize - i \<Longrightarrow> i \<le> simdSize \<Longrightarrow>
   gain_simd_loop (mm256_set1_ps gain) buf simdSize i mem =
     (\<lambda>q. if data buf + i \<le> q \<and> q < data buf + simdSize then mem q * gain else mem q)"
proof (induction "mm256_set1_ps gain" buf simdSize i mem rule: gain_simd_loop.induct)
  case (1 buf simdSize i mem)
  show ?case
  proof (cases "i < simdSize")
    case True
    from "1.prems"(1) True have l: "i + 8 \<le> simdSize"
      using dvd_imp_le[of 8 "simdSize - i"] by simp
    have "8 dvd (simdSize - i) - 8" by (rule dvd_diff_nat[OF "1.prems"(1) dvd_refl])
    then have d: "8 dvd simdSize - (i + 8)" by (simp only: diff_diff_left)
    show ?thesis
      apply (subst gain_simd_loop.simps)
      apply (simp only: True if_True)
      apply (subst "1.hyps"[OF True d l])
      apply (simp only: Let_def simd_block)
      apply (rule ext)
      using l apply auto
      done
  next
    case False
    show ?thesis
      apply (subst gain_simd_loop.simps)
      apply (rule ext)
      using False "1.prems" apply auto
      done
  qed
qed

lemma GainNode_processImpl_eq: "GainNode_processImpl avx gain buf mem = gain_spec gain buf mem"
proof -
  let ?s = "(size' buf div 8) * 8"
  have a: "8 dvd ?s - 0" "0 \<le> ?s" "?s \<le> size' buf" by simp_all
  show ?thesis
    by (cases avx)
       (auto simp: GainNode_processImpl_def gain_spec_def gain_scalar_loop_eq gain_simd_loop_eq[OF a(1,2)] fun_eq_iff Let_def)
qed

text \<open>
  Claim C8. For every buffer, gain and memory, the body of \<open>processImpl\<close> compiled with
  \<open>__AVX__\<close> (vector steps over the prefix of length \<open>(size / 8) * 8\<close>, then the scalar loop
  over the rest) and the body compiled without it leave the same memory; either body
  multiplies each cell of the buffer by the gain, once, and writes no other cell. The two
  results are equal, so they are within every epsilon of each other, whatever the
  multiplication is, as long as a vector lane multiplies as the scalar code does.
\<close>

theorem gain_vectorized_equals_scalar:
  "GainNode_processImpl True gain buf mem = GainNode_processImpl False gain buf mem \<and>
   GainNode_processImpl avx gain buf mem = gain_spec gain buf mem \<and>
   (\<forall>i < size' buf. GainNode_processImpl avx gain buf mem (data buf + i) = mem (data buf + i) * gain)"
  by (simp add: GainNode_processImpl_eq gain_spec_def)

theorem gain_vectorized_equals_scalar_witness:
  "(10::nat) < size' \<lparr>data = 2, size' = 11, channels = 1\<rparr> \<and>
   GainNode_processImpl True (3::int) \<lparr>data = 2, size' = 11, channels = 1\<rparr> int (2 + 10) =
      int (2 + 10) * 3 \<and>
   GainNode_processImpl True (3::int) \<lparr>data = 2, size' = 11, channels = 1\<rparr> int =
     GainNode_processImpl False 3 \<lparr>data = 2, size' = 11, channels = 1\<rparr> int \<and>
   map (GainNode_processImpl True (3::int) \<lparr>data = 2, size' = 11, channels = 1\<rparr> int) [0..<15] =
     [0, 1, 6, 9, 12, 15, 18, 21, 24, 27, 30, 33, 36, 13, 14]"
proof -
  let ?b = "\<lparr>data = 2, size' = 11, channels = 1\<rparr>"
  note t = gain_vectorized_equals_scalar[of 3 ?b int True]
  from t have b: "GainNode_processImpl True (3::int) ?b int = GainNode_processImpl False 3 ?b int"
    by (rule conjunct1)
  from t have a: "GainNode_processImpl True (3::int) ?b int = gain_spec 3 ?b int"
    by (rule conjunct1[OF conjunct2])
  from a b have c: "GainNode_processImpl False (3::int) ?b int = gain_spec 3 ?b int"
    by simp
  show ?thesis unfolding a c
    by (simp add: gain_spec_def upt_conv_Cons del: upt_Suc)
qed

section \<open>Proofs: MixerNode\<close>

lemma mix_scalar_loop_eq:
  "views_disjoint in1 out len \<Longrightarrow> views_disjoint in2 out len \<Longrightarrow>
   mix_scalar_loop in1 in2 out len i mem =
     (\<lambda>q. if data out + i \<le> q \<and> q < data out + len
          then mem (data in1 + (q - data out)) + mem (data in2 + (q - data out)) else mem q)"
proof (induction in1 in2 out len i mem rule: mix_scalar_loop.induct)
  case (1 in1 in2 out len i mem)
  show ?case
  proof (cases "i < len")
    case True
    show ?thesis
      apply (subst mix_scalar_loop.simps)
      apply (simp only: True if_True)
      apply (subst "1.IH"[OF True "1.prems"])
      apply (rule ext)
      using True "1.prems" apply (auto simp: views_disjoint_def)
      done
  next
    case False
    show ?thesis
      apply (subst mix_scalar_loop.simps)
      apply (rule ext)
      using False apply auto
      done
  qed
qed

lemma mix_simd_block:
  "mm256_storeu_ps mem p (mm256_add_ps (mm256_loadu_ps mem a) (mm256_loadu_ps mem b)) =
     (\<lambda>q. if p \<le> q \<and> q < p + 8 then mem (a + (q - p)) + mem (b + (q - p)) else mem q)"
  by (auto simp: mm256_storeu_ps_def mm256_add_ps_def mm256_loadu_ps_def fun_eq_iff
      simp del: upt_Suc)

lemma mix_simd_loop_eq:
  "views_disjoint in1 out len \<Longrightarrow> views_disjoint in2 out len \<Longrightarrow> simdSize \<le> len \<Longrightarrow>
   8 dvd simdSize - i \<Longrightarrow> i \<le> simdSize \<Longrightarrow>
   mix_simd_loop in1 in2 out simdSize i mem =
     (\<lambda>q. if data out + i \<le> q \<and> q < data out + simdSize
          then mem (data in1 + (q - data out)) + mem (data in2 + (q - data out)) else mem q)"
proof (induction in1 in2 out simdSize i mem rule: mix_simd_loop.induct)
  case (1 in1 in2 out simdSize i mem)
  show ?case
  proof (cases "i < simdSize")
    case True
    from "1.prems"(4) True have l: "i + 8 \<le> simdSize"
      using dvd_imp_le[of 8 "simdSize - i"] by simp
    have "8 dvd (simdSize - i) - 8" by (rule dvd_diff_nat[OF "1.prems"(4) dvd_refl])
    then have d: "8 dvd simdSize - (i + 8)" by (simp only: diff_diff_left)
    show ?thesis
      apply (subst mix_simd_loop.simps)
      apply (simp only: True if_True)
      apply (subst "1.IH"[OF True "1.prems"(1,2,3) d l])
      apply (simp only: Let_def mix_simd_block)
      apply (rule ext)
      using l "1.prems"(1,2,3) apply (auto simp: views_disjoint_def)
      done
  next
    case False
    show ?thesis
      apply (subst mix_simd_loop.simps)
      apply (rule ext)
      using False "1.prems" apply auto
      done
  qed
qed

lemma MixerNode_mix_eq:
  assumes "len = min (size' in1) (min (size' in2) (size' out))"
    and "views_disjoint in1 out len" and "views_disjoint in2 out len"
  shows "MixerNode_mix avx in1 in2 out mem =
     (\<lambda>q. if data out \<le> q \<and> q < data out + len
          then mem (data in1 + (q - data out)) + mem (data in2 + (q - data out)) else mem q)"
proof (cases avx)
  case False
  then show ?thesis
    using mix_scalar_loop_eq[OF assms(2,3), of 0 mem] assms(1)
    by (simp add: MixerNode_mix_def Let_def)
next
  case True
  let ?s = "(len div 8) * 8"
  have a: "?s \<le> len" "8 dvd ?s - 0" "0 \<le> ?s" by simp_all
  note v = mix_simd_loop_eq[OF assms(2,3) a, of mem]
  have d1: "data out + len \<le> data in1 \<or> data in1 + len \<le> data out"
    and d2: "data out + len \<le> data in2 \<or> data in2 + len \<le> data out"
    using assms(2,3) by (simp_all add: views_disjoint_def)
  have "MixerNode_mix True in1 in2 out mem =
          mix_scalar_loop in1 in2 out len ?s (mix_simd_loop in1 in2 out ?s 0 mem)"
    using assms(1) by (simp add: MixerNode_mix_def Let_def)
  also have "\<dots> = (\<lambda>q. if data out \<le> q \<and> q < data out + len
          then mem (data in1 + (q - data out)) + mem (data in2 + (q - data out)) else mem q)"
    unfolding mix_scalar_loop_eq[OF assms(2,3)] v
    apply (rule ext)
    using a(1) d1 d2 apply auto
    done
  finally show ?thesis using True by simp
qed

text \<open>
  Without the precondition the statement fails: when \<open>out\<close> starts one cell after \<open>a\<close>,
  the first store changes \<open>a[1]\<close> before it is read.
\<close>

lemma mix_overlapping_views:
  "MixerNode_mix avx \<lparr>data = 0, size' = 2, channels = 1\<rparr> \<lparr>data = 0, size' = 2, channels = 1\<rparr>
     \<lparr>data = 1, size' = 2, channels = 1\<rparr> (\<lambda>q. 1 :: int) 2 = 4"
  by (simp add: MixerNode_mix_def mix_simd_loop.simps mix_scalar_loop.simps Let_def)



section \<open>Proofs: float rounding\<close>






lemma ulp_exponent_ge: "- 149 \<le> ulp_exponent x"
  by (simp add: ulp_exponent_def)









section \<open>Proofs: FadeNode\<close>




lemma counter_at_small: "p < 2 ^ 24 \<Longrightarrow> counter_at p = Finite (real p)"
  by (simp add: counter_at_def min_def)







section \<open>Proofs: MemoryArena\<close>

lemma unat_padding:
  fixes off alignment :: size_t
  assumes "alignment \<noteq> 0"
  shows "unat ((alignment - (off mod alignment)) mod alignment) = padding_nat (unat off) (unat alignment)"
proof -
  have pos: "0 < unat alignment" using assms by (simp add: unat_gt_0)
  have "off mod alignment \<le> alignment"
    using pos by (simp add: word_le_nat_alt unat_mod less_imp_le)
  then have "unat (alignment - off mod alignment) = unat alignment - unat off mod unat alignment"
    by (simp add: unat_sub unat_mod)
  then show ?thesis by (simp add: unat_mod padding_nat_def)
qed

lemma padding_nat_aligned: "0 < al \<Longrightarrow> al dvd off + padding_nat off al"
  unfolding padding_nat_def
  by (metis add.commute dvd_eq_mod_eq_0 le_add_diff_inverse2 mod_add_right_eq mod_le_divisor mod_mod_trivial mod_self add_diff_inverse_nat less_imp_le mod_less_divisor)

lemma allocate_exact:
  assumes al: "alignment \<noteq> 0"
    and no: "unat (offset ar) + padding_nat (unat (offset ar)) (unat alignment) + unat sz < 2 ^ 64"
  shows "allocate sz alignment ar =
     (if unat (offset ar) + padding_nat (unat (offset ar)) (unat alignment) + unat sz
           > unat (buffer_size ar)
      then Inl BadAlloc
      else Inr (word_of_nat (unat (offset ar) + padding_nat (unat (offset ar)) (unat alignment)),
                ar\<lparr>offset := word_of_nat (unat (offset ar) +
                   padding_nat (unat (offset ar)) (unat alignment) + unat sz)\<rparr>))"
proof -
  let ?p = "(alignment - (offset ar mod alignment)) mod alignment"
  let ?pn = "padding_nat (unat (offset ar)) (unat alignment)"
  have p: "unat ?p = ?pn" by (rule unat_padding[OF al])
  have a1: "unat (offset ar + ?p) = unat (offset ar) + ?pn"
    using no p by (simp add: unat_add_lem[THEN iffD1])
  have a2: "unat (offset ar + ?p + sz) = unat (offset ar) + ?pn + unat sz"
    using no a1 by (simp add: unat_add_lem[THEN iffD1])
  have w1: "offset ar + ?p = word_of_nat (unat (offset ar) + ?pn)"
    by (simp add: p[symmetric])
  have w2: "offset ar + ?p + sz = word_of_nat (unat (offset ar) + ?pn + unat sz)"
    by (simp add: p[symmetric])
  have c: "(buffer_size ar < offset ar + ?p + sz) = (unat (buffer_size ar) < unat (offset ar) + ?pn + unat sz)"
    by (simp add: word_less_nat_alt a2)
  show ?thesis
    unfolding allocate_def Let_def using al c w1 w2 by simp
qed

lemma allocate_offset_monotone:
  assumes "alignment \<noteq> 0"
    and "unat (offset ar) + padding_nat (unat (offset ar)) (unat alignment) + unat sz < 2 ^ 64"
    and "allocate sz alignment ar = Inr (ptr, ar')"
  shows "unat (offset ar) \<le> unat ptr \<and> unat alignment dvd unat ptr \<and>
         unat (offset ar') = unat ptr + unat sz \<and> unat (offset ar') \<le> unat (buffer_size ar)"
proof -
  let ?pn = "padding_nat (unat (offset ar)) (unat alignment)"
  have pos: "0 < unat alignment" using assms(1) by (simp add: unat_gt_0)
  from assms(3) allocate_exact[OF assms(1,2)]
  have le: "unat (offset ar) + ?pn + unat sz \<le> unat (buffer_size ar)"
    and p: "ptr = word_of_nat (unat (offset ar) + ?pn)"
    and a: "ar' = ar\<lparr>offset := word_of_nat (unat (offset ar) + ?pn + unat sz)\<rparr>"
    by (auto split: if_splits)
  have up: "unat ptr = unat (offset ar) + ?pn"
    using assms(2) by (intro of_nat_inverse[OF p[symmetric]]) simp
  have uo: "unat (offset ar') = unat (offset ar) + ?pn + unat sz"
    using assms(2) by (intro of_nat_inverse) (simp_all add: a)
  show ?thesis using up uo le padding_nat_aligned[OF pos, of "unat (offset ar)"] by simp
qed

lemma padded_end_mono: "off \<le> padded_end off reqs"
proof (induction reqs arbitrary: off)
  case Nil
  show ?case by simp
next
  case (Cons r reqs)
  obtain sz al where r: "r = (sz, al)" by (cases r)
  from Cons[of "off + padding_nat off (unat al) + unat sz"] show ?case
    by (simp add: r)
qed

lemma allocate_all_fits:
  assumes "\<forall>r \<in> set reqs. snd r \<noteq> 0"
    and "padded_end (unat (offset ar)) reqs \<le> unat (buffer_size ar)"
  shows "\<exists>ptrs ar'. allocate_all reqs ar = Inr (ptrs, ar') \<and>
           length ptrs = length reqs \<and>
           sorted (map unat ptrs) \<and>
           (\<forall>p \<in> set ptrs. unat (offset ar) \<le> unat p) \<and>
           (\<forall>i < length reqs. unat (snd (reqs ! i)) dvd unat (ptrs ! i)) \<and>
           unat (offset ar') = padded_end (unat (offset ar)) reqs \<and>
           buffer_size ar' = buffer_size ar"
  using assms
proof (induction reqs arbitrary: ar)
  case Nil
  show ?case by simp
next
  case (Cons r reqs)
  obtain sz al where r: "r = (sz, al)" by (cases r)
  let ?pn = "padding_nat (unat (offset ar)) (unat al)"
  let ?e = "unat (offset ar) + ?pn + unat sz"
  from Cons.prems(1) have al: "al \<noteq> 0" by (simp add: r)
  from Cons.prems(2) have pe: "padded_end ?e reqs \<le> unat (buffer_size ar)" by (simp add: r)
  have fit: "?e \<le> unat (buffer_size ar)" using padded_end_mono[of ?e reqs] pe by simp
  have "unat (buffer_size ar) < 2 ^ 64" using unsigned_less[of "buffer_size ar"] by simp
  with fit have no: "?e < 2 ^ 64" by simp
  let ?ar1 = "ar\<lparr>offset := word_of_nat ?e\<rparr>"
  let ?ptr = "word_of_nat (unat (offset ar) + ?pn) :: size_t"
  have a: "allocate sz al ar = Inr (?ptr, ?ar1)"
    using allocate_exact[OF al no] fit by simp
  from allocate_offset_monotone[OF al no a]
  have m: "unat (offset ar) \<le> unat ?ptr" "unat al dvd unat ?ptr"
    "unat (offset ?ar1) = unat ?ptr + unat sz" by simp_all
  have o1: "unat (offset ?ar1) = ?e" using no by (intro of_nat_inverse) simp_all
  have p1: "\<forall>r \<in> set reqs. snd r \<noteq> 0" using Cons.prems(1) by simp
  have p2: "padded_end (unat (offset ?ar1)) reqs \<le> unat (buffer_size ?ar1)"
    using pe o1 by simp
  from Cons.IH[OF p1 p2] obtain ptrs ar' where
    ih: "allocate_all reqs ?ar1 = Inr (ptrs, ar')" "length ptrs = length reqs"
      "sorted (map unat ptrs)" "\<forall>p \<in> set ptrs. unat (offset ?ar1) \<le> unat p"
      "\<forall>i < length reqs. unat (snd (reqs ! i)) dvd unat (ptrs ! i)"
      "unat (offset ar') = padded_end (unat (offset ?ar1)) reqs"
      "buffer_size ar' = buffer_size ?ar1"
    by blast
  have le: "\<forall>p \<in> set ptrs. unat ?ptr \<le> unat p" using ih(4) m(3) by auto
  have al_all: "unat (snd ((r # reqs) ! i)) dvd unat ((?ptr # ptrs) ! i)" if "i < length (r # reqs)" for i
    using that ih(5) m(2) by (cases i) (simp_all add: r)
  have "allocate_all (r # reqs) ar = Inr (?ptr # ptrs, ar')"
    using a ih(1) by (simp add: r)
  moreover have "sorted (map unat (?ptr # ptrs))" using ih(3) le by simp
  moreover have "\<forall>p \<in> set (?ptr # ptrs). unat (offset ar) \<le> unat p"
    using m(1) le by auto
  moreover have "unat (offset ar') = padded_end (unat (offset ar)) (r # reqs)"
    using ih(6) o1 by (simp add: r)
  moreover have "buffer_size ar' = buffer_size ar" using ih(7) by simp
  ultimately show ?case using ih(2) al_all by (intro exI[of _ "?ptr # ptrs"] exI[of _ ar']) simp
qed

text \<open>
  Claim C2 (the code departs from it). The bound \<open>offset + padding + size > buffer.size()\<close>
  is computed in \<open>size_t\<close> and wraps. In an ar of 1024 bytes with \<open>offset = 16\<close>, the
  request \<open>allocate(2^64 - 16, 16)\<close> needs \<open>16 + 0 + (2^64 - 16)\<close> bytes, more than the
  capacity, yet it does not fail: the sum wraps to 0, the call returns the region at offset
  16 and leaves \<open>offset = 0\<close>, and the next allocation is handed offset 0, below the one
  before. Where the sum does not wrap, \<open>allocate\<close> is as the claim says
  (\<open>allocate_exact\<close>, \<open>allocate_offset_monotone\<close>), and a sequence of requests whose
  cumulative padded size is within the capacity never fails (\<open>allocate_all_fits\<close>).
\<close>

theorem allocate_wraps_past_capacity:
  "allocate 16 16 (MemoryArena_new 1024) = Inr (0, \<lparr>buffer_size = 1024, offset = 16\<rparr>) \<and>
   unat (offset \<lparr>buffer_size = 1024, offset = 16\<rparr>) +
     padding_nat (unat (offset \<lparr>buffer_size = 1024, offset = 16\<rparr>)) (unat (16 :: size_t)) +
     unat (18446744073709551600 :: size_t) > unat (buffer_size \<lparr>buffer_size = 1024, offset = 16\<rparr>) \<and>
   allocate 18446744073709551600 16 \<lparr>buffer_size = 1024, offset = 16\<rparr> =
     Inr (16, \<lparr>buffer_size = 1024, offset = 0\<rparr>) \<and>
   allocate 1 1 \<lparr>buffer_size = 1024, offset = 0\<rparr> = Inr (0, \<lparr>buffer_size = 1024, offset = 1\<rparr>)"
  by (simp add: allocate_def MemoryArena_new_def padding_nat_def)

section \<open>Proofs: WavReader and AudioEngine\<close>

lemma read_rejects:
  "files fs filename = None \<or>
   (\<exists>file. files fs filename = Some file \<and> take 4 (riff (header file)) \<noteq> ''RIFF'') \<Longrightarrow>
   WavReader_read fs filename samples sr ch = Inr (False, samples, sr, ch)"
  by (auto simp: WavReader_read_def Let_def)

lemma read_False_unchanged:
  assumes "WavReader_read fs filename samples sr ch = Inr (False, samples', sr', ch')"
  shows "samples' = samples \<and> sr' = sr \<and> ch' = ch \<and>
         (files fs filename = None \<or>
          (\<exists>file. files fs filename = Some file \<and> take 4 (riff (header file)) \<noteq> ''RIFF''))"
  using assms
  by (auto simp: WavReader_read_def Let_def split: option.splits if_splits sum.splits)

lemma read_True_metadata:
  assumes "WavReader_read fs filename samples sr ch = Inr (True, samples', sr', ch')"
  shows "\<exists>file. files fs filename = Some file \<and> take 4 (riff (header file)) = ''RIFF'' \<and>
           sr' = sampleRate (header file) \<and> ch' = numChannels (header file)"
  using assms
  by (auto simp: WavReader_read_def Let_def split: option.splits if_splits sum.splits)

lemma bits_lt_8: "(unat b div 8 = 0) = (b < 8)" for b :: "16 word"
  by (simp add: word_less_nat_alt div_eq_0_iff)

lemma read_div_by_zero:
  "(WavReader_read fs filename samples sr ch = Inl DivisionByZero) =
   (\<exists>file. files fs filename = Some file \<and> take 4 (riff (header file)) = ''RIFF'' \<and>
      bitsPerSample (header file) < 8)"
  by (auto simp: WavReader_read_def Let_def read_raw_def bits_lt_8 split: option.splits if_splits sum.splits)

lemma read_other_depth:
  assumes "files fs filename = Some file" "take 4 (riff (header file)) = ''RIFF''"
    and "8 \<le> bitsPerSample (header file)" "bitsPerSample (header file) \<noteq> 16"
  shows "WavReader_read fs filename samples sr ch =
     Inr (True, vector_resize (unat (dataSize (header file)) div (unat (bitsPerSample (header file)) div 8)) samples,
          sampleRate (header file), numChannels (header file))"
  using assms by (auto simp: WavReader_read_def Let_def bits_lt_8)

lemma loadFiles_second_fails_aux:
  assumes "WavReader_read fs f1 (buffer1 eng) (sampleRate' eng) (channels' eng) = Inr (True, samples1, sr1, ch1)"
    and "WavReader_read fs f2 (buffer2 eng) sr1 ch1 = Inr (False, samples2, sr2, ch2)"
  shows "loadFiles fs f1 f2 eng = Inr (False, eng\<lparr>buffer1 := samples1, sampleRate' := sr1, channels' := ch1\<rparr>)"
  using assms read_False_unchanged[OF assms(2)]
  by (simp add: loadFiles_def Let_def)

lemma loadFiles_True:
  assumes "loadFiles fs f1 f2 eng = Inr (True, eng')"
  shows "\<exists>s1 sr1 ch1 s2 sr2 ch2.
     WavReader_read fs f1 (buffer1 eng) (sampleRate' eng) (channels' eng) = Inr (True, s1, sr1, ch1) \<and>
     WavReader_read fs f2 (buffer2 eng) sr1 ch1 = Inr (True, s2, sr2, ch2) \<and>
     eng' = eng\<lparr>buffer1 := s1, buffer2 := s2, sampleRate' := sr2, channels' := ch2,
                 outputBuffer := vector_resize (max (length s1) (length s2)) (outputBuffer eng)\<rparr>"
  using assms
  by (auto simp: loadFiles_def Let_def split: sum.splits if_splits prod.splits)

lemma process_metadata:
  "sampleRate' (process avx g1 g2 eng) = sampleRate' eng \<and> channels' (process avx g1 g2 eng) = channels' eng
   \<and> arena (process avx g1 g2 eng) = arena eng"
  by (simp add: process_def Let_def)

lemma save_header:
  assumes "writable fs out"
  shows "\<exists>fs' w. save fs out eng = (True, fs') \<and> files fs' out = Some w \<and>
           sampleRate (header w) = sampleRate' eng \<and> numChannels (header w) = channels' eng"
  using assms by (simp add: save_def WavReader_write_def Let_def)

lemma length_vector_resize: "length (vector_resize n v) = n"
  by (simp add: vector_resize_def)

lemma engine_chain:
  fixes m0 :: "real memory"
  shows "MixerNode_mix avx \<lparr>data = 0, size' = n1, channels = 1\<rparr> \<lparr>data = n1, size' = n2, channels = 1\<rparr>
       \<lparr>data = n1 + n2, size' = n3, channels = 1\<rparr>
       (GainNode_process avx g2 \<lparr>data = n1, size' = n2, channels = 1\<rparr>
         (GainNode_process avx g1 \<lparr>data = 0, size' = n1, channels = 1\<rparr> m0)) =
     (\<lambda>q. if q < n1 then m0 q * g1
          else if q < n1 + n2 then m0 q * g2
          else if q < n1 + n2 + min n1 (min n2 n3)
               then m0 (q - (n1 + n2)) * g1 + m0 (n1 + (q - (n1 + n2))) * g2
               else m0 q)"
proof -
  let ?b1 = "\<lparr>data = 0, size' = n1, channels = 1\<rparr>"
  let ?b2 = "\<lparr>data = n1, size' = n2, channels = 1\<rparr>"
  let ?out = "\<lparr>data = n1 + n2, size' = n3, channels = 1\<rparr>"
  let ?len = "min n1 (min n2 n3)"
  let ?m2 = "GainNode_process avx g2 ?b2 (GainNode_process avx g1 ?b1 m0)"
  have l: "?len = min (size' ?b1) (min (size' ?b2) (size' ?out))"
    by simp
  have d1: "views_disjoint ?b1 ?out ?len" and d2: "views_disjoint ?b2 ?out ?len"
    by (auto simp: views_disjoint_def)
  have m2: "?m2 = (\<lambda>q. if q < n1 then m0 q * g1 else if q < n1 + n2 then m0 q * g2 else m0 q)"
    unfolding GainNode_process_def GainNode_processImpl_eq gain_spec_def
    by (rule ext) simp
  show ?thesis
    unfolding MixerNode_mix_eq[OF l d1 d2] m2
    by (rule ext) auto
qed

lemma process_eq:
  "process avx g1 g2 eng =
     eng\<lparr>buffer1 := map (\<lambda>x. x * g1) (buffer1 eng),
         buffer2 := map (\<lambda>x. x * g2) (buffer2 eng),
         outputBuffer :=
           map (\<lambda>i. if i < min (length (buffer1 eng)) (min (length (buffer2 eng)) (length (outputBuffer eng)))
                     then buffer1 eng ! i * g1 + buffer2 eng ! i * g2
                     else outputBuffer eng ! i) [0..<length (outputBuffer eng)]\<rparr>"
proof -
  let ?n1 = "length (buffer1 eng)" and ?n2 = "length (buffer2 eng)" and ?n3 = "length (outputBuffer eng)"
  let ?m0 = "vector_memory (buffer1 eng @ buffer2 eng @ outputBuffer eng)"
  let ?mF = "\<lambda>q. if q < ?n1 then ?m0 q * g1
          else if q < ?n1 + ?n2 then ?m0 q * g2
          else if q < ?n1 + ?n2 + min ?n1 (min ?n2 ?n3)
               then ?m0 (q - (?n1 + ?n2)) * g1 + ?m0 (?n1 + (q - (?n1 + ?n2))) * g2
               else ?m0 q"
  have p: "process avx g1 g2 eng =
      eng\<lparr>buffer1 := map ?mF [0..<?n1],
          buffer2 := map ?mF [?n1..<?n1 + ?n2],
          outputBuffer := map ?mF [?n1 + ?n2..<?n1 + ?n2 + ?n3]\<rparr>"
    unfolding process_def Let_def engine_chain by (rule refl)
  have a: "map ?mF [0..<?n1] = map (\<lambda>x. x * g1) (buffer1 eng)"
    by (rule nth_equalityI) (simp_all add: vector_memory_def nth_append)
  have b: "map ?mF [?n1..<?n1 + ?n2] = map (\<lambda>x. x * g2) (buffer2 eng)"
    by (rule nth_equalityI) (simp_all add: vector_memory_def nth_append)
  have c: "map ?mF [?n1 + ?n2..<?n1 + ?n2 + ?n3] =
           map (\<lambda>i. if i < min ?n1 (min ?n2 ?n3)
                     then buffer1 eng ! i * g1 + buffer2 eng ! i * g2
                     else outputBuffer eng ! i) [0..<?n3]"
    by (rule nth_equalityI) (auto simp: vector_memory_def nth_append)
  show ?thesis unfolding p a b c by (rule refl)
qed


text \<open>
  Claim C3, as stated, fails: \<open>a.wav\<close> is read, \<open>missing.wav\<close> cannot be opened, and
  \<open>loadFiles\<close> returns false with \<open>buffer1\<close>, \<open>sampleRate\<close> and \<open>channels\<close> already
  overwritten by the first read.
\<close>

theorem loadFiles_no_rollback_counterexample:
  "WavReader_read test_fs ''a.wav'' (buffer1 (AudioEngine_new 1024)) (sampleRate' (AudioEngine_new 1024))
     (channels' (AudioEngine_new 1024)) = Inr (True, [1 / 2, 1 / 4], 48000, 1) \<and>
   WavReader_read test_fs ''missing.wav'' (buffer2 (AudioEngine_new 1024)) 48000 1 = Inr (False, [], 48000, 1) \<and>
   loadFiles test_fs ''a.wav'' ''missing.wav'' (AudioEngine_new 1024) =
     Inr (False, \<lparr>arena = \<lparr>buffer_size = 1024, offset = 0\<rparr>, buffer1 = [1 / 2, 1 / 4], buffer2 = [],
                  outputBuffer = [], sampleRate' = 48000, channels' = 1\<rparr>) \<and>
   AudioEngine_new 1024 = \<lparr>arena = \<lparr>buffer_size = 1024, offset = 0\<rparr>, buffer1 = [], buffer2 = [],
                  outputBuffer = [], sampleRate' = 44100, channels' = 2\<rparr> \<and>
   buffer1 (AudioEngine_new 1024) \<noteq> [1 / 2, 1 / 4] \<and>
   sampleRate' (AudioEngine_new 1024) \<noteq> 48000 \<and>
   channels' (AudioEngine_new 1024) \<noteq> 1"
  by code_simp

text \<open>
  Claim C3, amended. If reading the first source succeeds and reading the second source
  fails, \<open>loadFiles\<close> returns false; \<open>arena\<close>, \<open>buffer2\<close> and \<open>outputBuffer\<close> are as before
  the call, and \<open>buffer1\<close>, \<open>sampleRate\<close> and \<open>channels\<close> hold what the first read
  returned. The failed read itself changed nothing.
\<close>

theorem loadFiles_second_fails:
  assumes "WavReader_read fs f1 (buffer1 eng) (sampleRate' eng) (channels' eng) = Inr (True, samples1, sr1, ch1)"
    and "WavReader_read fs f2 (buffer2 eng) sr1 ch1 = Inr (False, samples2, sr2, ch2)"
  shows "loadFiles fs f1 f2 eng =
           Inr (False, eng\<lparr>buffer1 := samples1, sampleRate' := sr1, channels' := ch1\<rparr>) \<and>
         samples2 = buffer2 eng \<and> sr2 = sr1 \<and> ch2 = ch1"
  using loadFiles_second_fails_aux[OF assms] read_False_unchanged[OF assms(2)] by simp

theorem loadFiles_second_fails_witness:
  "WavReader_read test_fs ''a.wav'' (buffer1 (AudioEngine_new 1024)) (sampleRate' (AudioEngine_new 1024))
     (channels' (AudioEngine_new 1024)) = Inr (True, [1 / 2, 1 / 4], 48000, 1) \<and>
   WavReader_read test_fs ''missing.wav'' (buffer2 (AudioEngine_new 1024)) 48000 1 = Inr (False, [], 48000, 1) \<and>
   loadFiles test_fs ''a.wav'' ''missing.wav'' (AudioEngine_new 1024) =
     Inr (False, (AudioEngine_new 1024)\<lparr>buffer1 := [1 / 2, 1 / 4], sampleRate' := 48000, channels' := 1\<rparr>)"
proof -
  have h1: "WavReader_read test_fs ''a.wav'' (buffer1 (AudioEngine_new 1024)) (sampleRate' (AudioEngine_new 1024))
     (channels' (AudioEngine_new 1024)) = Inr (True, [1 / 2, 1 / 4], 48000, 1)"
    by code_simp
  have h2: "WavReader_read test_fs ''missing.wav'' (buffer2 (AudioEngine_new 1024)) 48000 1 = Inr (False, [], 48000, 1)"
    by code_simp
  from loadFiles_second_fails[OF h1 h2] h1 h2 show ?thesis by simp
qed

text \<open>
  Claim C4 (the code departs from it). \<open>loadFiles\<close> sizes \<open>outputBuffer\<close> to the longer
  input, but \<open>mix\<close> stops at the shorter one, so the output beyond it is never written:
  with the two samples 0.5, 0.25 of \<open>a.wav\<close>, the one sample 0.5 of \<open>b.wav\<close> and both gains
  1, the output is 1, 0 and not 1, 0.25. \<open>process_eq\<close> is the general statement.
\<close>

theorem process_tail_of_longer_input:
  "loadFiles test_fs ''a.wav'' ''b.wav'' (AudioEngine_new 1024) =
     Inr (True, \<lparr>arena = \<lparr>buffer_size = 1024, offset = 0\<rparr>, buffer1 = [1 / 2, 1 / 4], buffer2 = [1 / 2],
                 outputBuffer = [0, 0], sampleRate' = 22050, channels' = 2\<rparr>) \<and>
   process False 1 1 \<lparr>arena = \<lparr>buffer_size = 1024, offset = 0\<rparr>, buffer1 = [1 / 2, 1 / 4], buffer2 = [1 / 2],
                 outputBuffer = [0, 0], sampleRate' = 22050, channels' = 2\<rparr> =
     \<lparr>arena = \<lparr>buffer_size = 1024, offset = 0\<rparr>, buffer1 = [1 / 2, 1 / 4], buffer2 = [1 / 2],
      outputBuffer = [1, 0], sampleRate' = 22050, channels' = 2\<rparr> \<and>
   process True 1 1 \<lparr>arena = \<lparr>buffer_size = 1024, offset = 0\<rparr>, buffer1 = [1 / 2, 1 / 4], buffer2 = [1 / 2],
                 outputBuffer = [0, 0], sampleRate' = 22050, channels' = 2\<rparr> =
     \<lparr>arena = \<lparr>buffer_size = 1024, offset = 0\<rparr>, buffer1 = [1 / 2, 1 / 4], buffer2 = [1 / 2],
      outputBuffer = [1, 0], sampleRate' = 22050, channels' = 2\<rparr>"
  by code_simp

text \<open>
  Claim C5 (the code departs from it). \<open>c.wav\<close> has the RIFF tag and \<open>bitsPerSample = 8\<close>;
  \<open>read\<close> returns true, with \<open>samples\<close> resized to the four entries its \<open>dataSize\<close> asks
  for and none of them decoded: zeros, after whatever the vector held before. Where the
  file cannot be opened or the tag is not RIFF, \<open>read\<close> does return false and changes
  nothing (\<open>read_rejects\<close>); \<open>read_other_depth\<close> is the general statement for the other
  bit depths.
\<close>

theorem read_accepts_other_bit_depth:
  "bitsPerSample (test_header 22050 2 8 4) \<noteq> 16 \<and>
   WavReader_read test_fs ''c.wav'' [] 44100 2 = Inr (True, [0, 0, 0, 0], 22050, 2) \<and>
   WavReader_read test_fs ''c.wav'' [1 / 2, 1 / 4] 44100 2 = Inr (True, [1 / 2, 1 / 4, 0, 0], 22050, 2)"
  by code_simp

text \<open>
  Claim C9. After \<open>loadFiles fs f1 f2\<close> has returned true, both files could be opened and the
  engine's \<open>sampleRate\<close> and \<open>channels\<close> are those of the header of \<open>f2\<close>; \<open>process\<close> does
  not change them, and \<open>save\<close>, to any name that can be opened for writing, before or after
  \<open>process\<close>, returns true and leaves a file whose header carries that sample rate and
  channel count, whatever the header of \<open>f1\<close> says.
\<close>

theorem loadFiles_keeps_second_metadata:
  assumes "loadFiles fs f1 f2 eng = Inr (True, eng')"
  shows "\<exists>file1 file2. files fs f1 = Some file1 \<and> files fs f2 = Some file2 \<and>
           sampleRate' eng' = sampleRate (header file2) \<and>
           channels' eng' = numChannels (header file2) \<and>
           (\<forall>fs' out avx g1 g2. writable fs' out \<longrightarrow>
              (\<exists>fs'' w. save fs' out (process avx g1 g2 eng') = (True, fs'') \<and>
                 files fs'' out = Some w \<and>
                 sampleRate (header w) = sampleRate (header file2) \<and>
                 numChannels (header w) = numChannels (header file2)) \<and>
              (\<exists>fs'' w. save fs' out eng' = (True, fs'') \<and>
                 files fs'' out = Some w \<and>
                 sampleRate (header w) = sampleRate (header file2) \<and>
                 numChannels (header w) = numChannels (header file2)))"
proof -
  from loadFiles_True[OF assms] obtain s1 sr1 ch1 s2 sr2 ch2 where
    r1: "WavReader_read fs f1 (buffer1 eng) (sampleRate' eng) (channels' eng) = Inr (True, s1, sr1, ch1)"
    and r2: "WavReader_read fs f2 (buffer2 eng) sr1 ch1 = Inr (True, s2, sr2, ch2)"
    and e: "eng' = eng\<lparr>buffer1 := s1, buffer2 := s2, sampleRate' := sr2, channels' := ch2,
                 outputBuffer := vector_resize (max (length s1) (length s2)) (outputBuffer eng)\<rparr>"
    by blast
  from read_True_metadata[OF r1] obtain file1 where f1: "files fs f1 = Some file1" by blast
  from read_True_metadata[OF r2] obtain file2 where f2: "files fs f2 = Some file2"
    and m: "sr2 = sampleRate (header file2)" "ch2 = numChannels (header file2)" by blast
  have a: "sampleRate' eng' = sampleRate (header file2)" "channels' eng' = numChannels (header file2)"
    using e m by simp_all
  have b: "\<exists>fs'' w. save fs' out (process avx g1 g2 eng') = (True, fs'') \<and>
                 files fs'' out = Some w \<and>
                 sampleRate (header w) = sampleRate (header file2) \<and>
                 numChannels (header w) = numChannels (header file2)"
    if "writable fs' out" for fs' out avx g1 g2
    using save_header[OF that, of "process avx g1 g2 eng'"] a by (simp add: process_metadata)
  have c: "\<exists>fs'' w. save fs' out eng' = (True, fs'') \<and>
                 files fs'' out = Some w \<and>
                 sampleRate (header w) = sampleRate (header file2) \<and>
                 numChannels (header w) = numChannels (header file2)"
    if "writable fs' out" for fs' out
    using save_header[OF that, of eng'] a by simp
  from f1 f2 a b c show ?thesis by blast
qed

theorem loadFiles_keeps_second_metadata_witness:
  "loadFiles test_fs ''a.wav'' ''b.wav'' (AudioEngine_new 1024) =
     Inr (True, \<lparr>arena = \<lparr>buffer_size = 1024, offset = 0\<rparr>, buffer1 = [1 / 2, 1 / 4], buffer2 = [1 / 2],
                 outputBuffer = [0, 0], sampleRate' = 22050, channels' = 2\<rparr>) \<and>
   (\<exists>file1 file2. files test_fs ''a.wav'' = Some file1 \<and> files test_fs ''b.wav'' = Some file2 \<and>
      sampleRate (header file1) = 48000 \<and> numChannels (header file1) = 1 \<and>
      sampleRate (header file2) = 22050 \<and> numChannels (header file2) = 2 \<and>
      (\<exists>fs'' w. save test_fs ''out.wav''
           (process True (4 / 5) (3 / 5)
              \<lparr>arena = \<lparr>buffer_size = 1024, offset = 0\<rparr>, buffer1 = [1 / 2, 1 / 4], buffer2 = [1 / 2],
               outputBuffer = [0, 0], sampleRate' = 22050, channels' = 2\<rparr>) = (True, fs'') \<and>
         files fs'' ''out.wav'' = Some w \<and>
         sampleRate (header w) = sampleRate (header file2) \<and>
         numChannels (header w) = numChannels (header file2)))"
proof -
  let ?e = "\<lparr>arena = \<lparr>buffer_size = 1024, offset = 0\<rparr>, buffer1 = [1 / 2, 1 / 4], buffer2 = [1 / 2],
             outputBuffer = [0, 0], sampleRate' = 22050, channels' = 2\<rparr>"
  have h: "loadFiles test_fs ''a.wav'' ''b.wav'' (AudioEngine_new 1024) = Inr (True, ?e)"
    by code_simp
  have w: "writable test_fs ''out.wav''" by (simp add: test_fs_def)
  have a: "files test_fs ''a.wav'' = Some \<lparr>header = test_header 48000 1 16 4, payload = [0, 64, 0, 32]\<rparr>"
    and b: "files test_fs ''b.wav'' = Some \<lparr>header = test_header 22050 2 16 2, payload = [0, 64]\<rparr>"
    by (simp_all add: test_fs_def)
  from loadFiles_keeps_second_metadata[OF h] w a b h show ?thesis
    by (auto simp: test_header_def)
qed

text \<open>
  Claim C10. \<open>read\<close> divides \<open>dataSize\<close> by \<open>bitsPerSample / 8\<close> with no check of
  \<open>bitsPerSample\<close>: the call ends in a division by zero exactly when the file can be
  opened, its header has the RIFF tag and \<open>bitsPerSample < 8\<close> (0, for one), so the
  count is defined only when \<open>bitsPerSample\<close> is at least 8.
\<close>

theorem read_divides_by_zero_iff:
  "(WavReader_read fs filename samples sr ch = Inl DivisionByZero) =
   (\<exists>file. files fs filename = Some file \<and> take 4 (riff (header file)) = ''RIFF'' \<and>
      bitsPerSample (header file) < 8)"
  by (rule read_div_by_zero)

theorem read_divides_by_zero_iff_witness:
  "files test_fs ''d.wav'' = Some \<lparr>header = test_header 22050 2 0 4, payload = [1, 2, 3, 4]\<rparr> \<and>
   take 4 (riff (test_header 22050 2 0 4)) = ''RIFF'' \<and>
   bitsPerSample (test_header 22050 2 0 4) = 0 \<and>
   WavReader_read test_fs ''d.wav'' [] 44100 2 = Inl DivisionByZero"
proof -
  have a: "files test_fs ''d.wav'' = Some \<lparr>header = test_header 22050 2 0 4, payload = [1, 2, 3, 4]\<rparr>"
    by (simp add: test_fs_def)
  have b: "take 4 (riff (test_header 22050 2 0 4)) = ''RIFF''"
    and c: "bitsPerSample (test_header 22050 2 0 4) = 0"
    by (simp_all add: test_header_def)
  have "WavReader_read test_fs ''d.wav'' [] 44100 2 = Inl DivisionByZero"
    using a b c by (subst read_divides_by_zero_iff) simp
  with a b c show ?thesis by simp
qed

end
